theory Spec2Isabelle
  imports Main "HOL-Library.Word" "HOL-Library.Monad_Syntax"
begin

unbundle bit_operations_syntax

section \<open>TinyBling: data model\<close>

text \<open>
  The firmware targets an ATtiny13A: \<open>uint8_t\<close> is an 8-bit word, \<open>uint16_t\<close>
  (which is \<open>unsigned int\<close> on AVR) a 16-bit word. Operations of the source whose
  behaviour C leaves undefined (a negative shift count, a write past the end of a
  16-element array, a remainder by zero) give \<open>None\<close> in the model.
\<close>

type_synonym u8 = "8 word"
type_synonym u16 = "16 word"

subsection \<open>Low-level NeoPixel output (both sketches)\<close>

text \<open>
  \<open>NEO_sendByte\<close> clocks one byte onto the data line, most significant bit first;
  the model records the byte put on the wire, not the pulse timing.
\<close>

definition NEO_sendByte :: "u8 \<Rightarrow> u8 list" where
  "NEO_sendByte byte = [byte]"

text \<open>Both sketches define \<open>NEO_GRB\<close>, so the wire order is green, red, blue.\<close>

definition NEO_writeColor :: "u8 \<Rightarrow> u8 \<Rightarrow> u8 \<Rightarrow> u8 list" where
  "NEO_writeColor r g b = NEO_sendByte g @ NEO_sendByte r @ NEO_sendByte b"

subsection \<open>Wheel of Fortune sketch: \<open>NEO_writeHue\<close>\<close>

text \<open>The three locals of \<open>NEO_writeHue\<close>, each as a function of the argument.\<close>

definition wh_phase :: "u8 \<Rightarrow> u8" where
  "wh_phase hue = drop_bit 6 hue"

definition wh_step :: "u8 \<Rightarrow> u8" where
  "wh_step hue = push_bit 2 (hue AND 63)"

definition wh_nstep :: "u8 \<Rightarrow> u8" where
  "wh_nstep hue = push_bit 2 63 - wh_step hue"

definition NEO_writeHue :: "u8 \<Rightarrow> u8 list" where
  "NEO_writeHue hue =
     (let phase = wh_phase hue; step = wh_step hue; nstep = wh_nstep hue
      in if phase = 0 then NEO_writeColor nstep step 0
         else if phase = 1 then NEO_writeColor 0 nstep step
         else if phase = 2 then NEO_writeColor step 0 nstep
         else [])"

text \<open>\<open>NEO_setPixel\<close>: one frame with a single lit pixel.\<close>

definition NEO_setPixel :: "u8 \<Rightarrow> u8 \<Rightarrow> u8 list" where
  "NEO_setPixel nr hue =
     concat (map (\<lambda>i. if of_nat i = nr then NEO_writeHue hue else NEO_writeColor 0 0 0)
                 [0..<16])"

subsection \<open>Ambient sketch: gamma table and \<open>NEO_show\<close>\<close>

definition gamma :: "u8 list" where
  "gamma =
   [  0,   0,   0,   0,   0,   0,   0,   1,   1,   1,   2,   2,   3,   3,   4,   5,
      6,   7,   8,  10,  11,  13,  14,  16,  18,  20,  22,  25,  27,  30,  33,  36,
     39,  43,  47,  50,  55,  59,  63,  68,  73,  78,  83,  89,  95, 101, 107, 114,
    120, 127, 135, 142, 150, 158, 167, 175, 184, 193, 203, 213, 223, 233, 244, 255]"

text \<open>
  \<open>x >> (6 - NEO_bright[i])\<close>: both operands are promoted to \<open>int\<close> (16 bits on AVR),
  so the count is \<open>6 - bright\<close> as an integer; C leaves the shift undefined when the
  count is negative or not less than the width of \<open>int\<close>.
\<close>

definition shift_count :: "u8 \<Rightarrow> int" where
  "shift_count bright = 6 - uint bright"

definition shr :: "u8 \<Rightarrow> int \<Rightarrow> u8 option" where
  "shr x n = (if n < 0 \<or> 16 \<le> n then None else Some (drop_bit (nat n) x))"

text \<open>The locals of one iteration of the loop in \<open>NEO_show\<close>.\<close>

definition sh_phase :: "u8 \<Rightarrow> u8" where
  "sh_phase hue = drop_bit 6 hue"

definition sh_step :: "u8 \<Rightarrow> u8" where
  "sh_step hue = hue AND 63"

definition pgm_read_gamma :: "u8 \<Rightarrow> u8 option" where
  "pgm_read_gamma k = (if unat k < length gamma then Some (gamma ! unat k) else None)"

definition col :: "u8 \<Rightarrow> u8 \<Rightarrow> u8 option" where
  "col step bright = do { k \<leftarrow> shr step (shift_count bright); pgm_read_gamma k }"

definition ncol :: "u8 \<Rightarrow> u8 \<Rightarrow> u8 option" where
  "ncol step bright = do { k \<leftarrow> shr (63 - step) (shift_count bright); pgm_read_gamma k }"

definition show_pixel :: "u8 \<Rightarrow> u8 \<Rightarrow> u8 list option" where
  "show_pixel hue bright =
     do {
       let phase = sh_phase hue;
       let step = sh_step hue;
       c \<leftarrow> col step bright;
       n \<leftarrow> ncol step bright;
       Some (if phase = 0 then NEO_writeColor n c 0
             else if phase = 1 then NEO_writeColor 0 n c
             else if phase = 2 then NEO_writeColor c 0 n
             else [])
     }"

text \<open>
  \<open>for (i = 0; i < 16; i++)\<close> over a body that may be undefined: the body runs for
  each index in turn and the first undefined step makes the whole loop undefined.
\<close>

fun for_each :: "nat list \<Rightarrow> (nat \<Rightarrow> 's \<Rightarrow> 's option) \<Rightarrow> 's \<Rightarrow> 's option" where
  "for_each [] body s = Some s"
| "for_each (i # is) body s = (case body i s of None \<Rightarrow> None | Some s' \<Rightarrow> for_each is body s')"

text \<open>How many of the channel bytes sent for a pixel are zero.\<close>

definition zero_channels :: "u8 list \<Rightarrow> nat" where
  "zero_channels bytes = length (filter (\<lambda>b. b = 0) bytes)"

subsection \<open>Ambient sketch: globals and the locals of \<open>main\<close>\<close>

text \<open>
  The globals \<open>NEO_hue\<close>, \<open>NEO_bright\<close> and \<open>rn\<close>, the locals of \<open>main\<close>, and
  \<open>wire\<close>, the frame most recently sent on the data line. The two arrays have 16
  elements in C; a list of another length models no array of the program.
\<close>

record machine =
  NEO_hue :: "u8 list"
  NEO_bright :: "u8 list"
  rn :: u16
  state :: u8
  counter :: u8
  hue1 :: u8
  hue2 :: u8
  ptr1 :: u8
  ptr2 :: u8
  wire :: "u8 list"

definition NEO_show :: "machine \<Rightarrow> machine option" where
  "NEO_show s =
     do {
       frame \<leftarrow> for_each [0..<16]
         (\<lambda>i w. do { bytes \<leftarrow> show_pixel (NEO_hue s ! i) (NEO_bright s ! i); Some (w @ bytes) })
         [];
       Some (s\<lparr>wire := frame\<rparr>)
     }"

subsection \<open>High-level NeoPixel functions\<close>

definition NEO_set :: "u8 \<Rightarrow> u8 \<Rightarrow> machine \<Rightarrow> machine option" where
  "NEO_set number hue s =
     (if unat number < 16
      then Some (s\<lparr>NEO_bright := (NEO_bright s)[unat number := 6],
                  NEO_hue := (NEO_hue s)[unat number := hue]\<rparr>)
      else None)"

definition NEO_fill :: "u8 \<Rightarrow> machine \<Rightarrow> machine" where
  "NEO_fill hue s = s\<lparr>NEO_hue := fold (\<lambda>i h. h[i := hue]) [0..<16] (NEO_hue s)\<rparr>"

definition NEO_fadeIn :: "machine \<Rightarrow> machine" where
  "NEO_fadeIn s =
     s\<lparr>NEO_bright := fold (\<lambda>i b. if b ! i < 6 then b[i := b ! i + 1] else b) [0..<16]
                          (NEO_bright s)\<rparr>"

definition NEO_fadeOut :: "machine \<Rightarrow> machine" where
  "NEO_fadeOut s =
     s\<lparr>NEO_bright := fold (\<lambda>i b. if b ! i \<noteq> 0 then b[i := b ! i - 1] else b) [0..<16]
                          (NEO_bright s)\<rparr>"

text \<open>\<open>for (i = 15; i; i--)\<close> visits 15, 14, ..., 1.\<close>

definition NEO_cw :: "machine \<Rightarrow> machine" where
  "NEO_cw s =
     (let btemp = NEO_bright s ! 15;
          htemp = NEO_hue s ! 15;
          s1 = fold (\<lambda>i t. t\<lparr>NEO_bright := (NEO_bright t)[i := NEO_bright t ! (i - 1)],
                              NEO_hue := (NEO_hue t)[i := NEO_hue t ! (i - 1)]\<rparr>)
                    (rev [1..<16]) s
      in s1\<lparr>NEO_bright := (NEO_bright s1)[0 := btemp], NEO_hue := (NEO_hue s1)[0 := htemp]\<rparr>)"

definition NEO_ccw :: "machine \<Rightarrow> machine" where
  "NEO_ccw s =
     (let btemp = NEO_bright s ! 0;
          htemp = NEO_hue s ! 0;
          s1 = fold (\<lambda>i t. t\<lparr>NEO_bright := (NEO_bright t)[i := NEO_bright t ! (i + 1)],
                              NEO_hue := (NEO_hue t)[i := NEO_hue t ! (i + 1)]\<rparr>)
                    [0..<15] s
      in s1\<lparr>NEO_bright := (NEO_bright s1)[15 := btemp], NEO_hue := (NEO_hue s1)[15 := htemp]\<rparr>)"

subsection \<open>Pseudo random number generator\<close>

text \<open>The update of \<open>rn\<close>: \<open>(rn >> 0x01) ^ (-(rn & 0x01) & 0xB400)\<close> on 16 bits.\<close>

definition lfsr :: "u16 \<Rightarrow> u16" where
  "lfsr r = drop_bit 1 r XOR (- (r AND 1) AND 0xB400)"

text \<open>
  The reading of the same step in words: a Galois shift register shifts right by one
  and, when the bit shifted out was set, toggles the taps \<open>0xB400\<close>.
\<close>

definition galois_step :: "u16 \<Rightarrow> u16" where
  "galois_step r = (if bit r 0 then drop_bit 1 r XOR 0xB400 else drop_bit 1 r)"

definition seed :: u16 where
  "seed = 0xACE1"

text \<open>\<open>prng\<close> returns the value and the machine with \<open>rn\<close> advanced.\<close>

definition prng :: "u16 \<Rightarrow> machine \<Rightarrow> (u16 \<times> machine) option" where
  "prng maxvalue s =
     (let r = lfsr (rn s)
      in if maxvalue = 0 then None else Some (r mod maxvalue, s\<lparr>rn := r\<rparr>))"

text \<open>The first \<open>n\<close> values of \<open>prng maxvalue\<close> from a machine.\<close>

fun prng_seq :: "nat \<Rightarrow> u16 \<Rightarrow> machine \<Rightarrow> u16 list option" where
  "prng_seq 0 maxvalue s = Some []"
| "prng_seq (Suc n) maxvalue s =
     do { (v, s') \<leftarrow> prng maxvalue s; vs \<leftarrow> prng_seq n maxvalue s'; Some (v # vs) }"

subsection \<open>The main loop of the ambient sketch\<close>

text \<open>
  \<open>if (h > 191) h -= 192\<close>, as used after each hue increment.
\<close>

definition wrap192 :: "u8 \<Rightarrow> u8" where
  "wrap192 h = (if h > 191 then h - 192 else h)"

text \<open>
  \<open>NEO_set(prng(16), prng(192))\<close>: C leaves the order in which the two arguments are
  evaluated unspecified, so the model takes it as a parameter (\<open>rtl\<close>: right to left).
  The \<open>uint16_t\<close> results are converted to the \<open>uint8_t\<close> parameters.
\<close>

definition set_random :: "bool \<Rightarrow> machine \<Rightarrow> machine option" where
  "set_random rtl s =
     (if rtl
      then do { (h, s1) \<leftarrow> prng 192 s; (n, s2) \<leftarrow> prng 16 s1; NEO_set (ucast n) (ucast h) s2 }
      else do { (n, s1) \<leftarrow> prng 16 s; (h, s2) \<leftarrow> prng 192 s1; NEO_set (ucast n) (ucast h) s2 })"

text \<open>The \<open>switch (state)\<close> of the loop body.\<close>

definition animate :: "bool \<Rightarrow> machine \<Rightarrow> machine option" where
  "animate rtl s =
     (if state s = 0 then
        Some (s\<lparr>hue1 := 0, hue2 := 96, ptr1 := 0, ptr2 := 8, counter := 1\<rparr>)
      else if state s = 1 then
        do {
          let s = NEO_fadeOut s;
          let s = s\<lparr>hue1 := hue1 s + 4\<rparr>;
          let s = s\<lparr>hue2 := hue2 s + 4\<rparr>;
          let s = s\<lparr>hue1 := wrap192 (hue1 s)\<rparr>;
          let s = s\<lparr>hue2 := wrap192 (hue2 s)\<rparr>;
          let s = s\<lparr>ptr1 := (ptr1 s + 1) AND 0x0F\<rparr>;
          let s = s\<lparr>ptr2 := (ptr2 s + 1) AND 0x0F\<rparr>;
          s \<leftarrow> NEO_set (ptr1 s) (hue1 s) s;
          s \<leftarrow> NEO_set (ptr2 s) (hue2 s) s;
          NEO_show s
        }
      else if state s = 2 then
        do {
          let s = NEO_fadeOut s;
          (i, s) \<leftarrow> prng 4 s;
          s \<leftarrow> for_each (rev [1..<Suc (unat (ucast i :: u8))]) (\<lambda>_. set_random rtl) s;
          NEO_show s
        }
      else if state s = 3 then
        do {
          s \<leftarrow> for_each [0..<16]
                 (\<lambda>i s. do { (h, s) \<leftarrow> prng 192 s; NEO_set (of_nat i) (ucast h) s }) s;
          let s = s\<lparr>counter := 1\<rparr>;
          NEO_show s
        }
      else if state s = 4 then
        do {
          s \<leftarrow> for_each [0..<16]
                 (\<lambda>i s. do {
                    (d, s) \<leftarrow> prng 8 s;
                    let s = s\<lparr>NEO_hue := (NEO_hue s)[i := NEO_hue s ! i + ucast d]\<rparr>;
                    Some (s\<lparr>NEO_hue := (NEO_hue s)[i := wrap192 (NEO_hue s ! i)]\<rparr>)
                  }) s;
          NEO_show s
        }
      else if state s = 5 then
        do {
          let s = s\<lparr>hue1 := 0\<rparr>;
          s \<leftarrow> for_each [0..<16]
                 (\<lambda>i s. do { s \<leftarrow> NEO_set (of_nat i) (hue1 s) s; Some (s\<lparr>hue1 := hue1 s + 12\<rparr>) }) s;
          let s = s\<lparr>counter := 1\<rparr>;
          NEO_show s
        }
      else if state s = 6 then
        NEO_show (NEO_cw s)
      else if state s = 7 then
        do {
          let s = s\<lparr>hue1 := hue1 s + 3\<rparr>;
          let s = s\<lparr>hue1 := wrap192 (hue1 s)\<rparr>;
          NEO_show (NEO_fill (hue1 s) s)
        }
      else Some s)"

text \<open>
  One pass of \<open>while (1)\<close>: the animation, then \<open>if (!(--counter))\<close> with
  \<open>counter = 76; if (++state > 7) state = 0\<close>. Resetting the watchdog and sleeping
  change nothing of the machine.
\<close>

definition tick :: "bool \<Rightarrow> machine \<Rightarrow> machine option" where
  "tick rtl s =
     do {
       s \<leftarrow> animate rtl s;
       let s = s\<lparr>counter := counter s - 1\<rparr>;
       Some (if counter s = 0
             then (let s = s\<lparr>counter := 76\<rparr>;
                       s = s\<lparr>state := state s + 1\<rparr>
                   in if state s > 7 then s\<lparr>state := 0\<rparr> else s)
             else s)
     }"

fun run :: "bool \<Rightarrow> nat \<Rightarrow> machine \<Rightarrow> machine option" where
  "run rtl 0 s = Some s"
| "run rtl (Suc n) s = (case tick rtl s of None \<Rightarrow> None | Some s' \<Rightarrow> run rtl n s')"

text \<open>
  The machine when \<open>main\<close> enters its loop: the global arrays are zero-initialised,
  \<open>rn\<close> holds the seed, \<open>state\<close> is 0, and the other locals are uninitialised, so
  they are parameters here.
\<close>

definition power_on :: "u8 \<Rightarrow> u8 \<Rightarrow> u8 \<Rightarrow> u8 \<Rightarrow> u8 \<Rightarrow> machine" where
  "power_on c h1 h2 p1 p2 =
     \<lparr>NEO_hue = replicate 16 0, NEO_bright = replicate 16 0, rn = seed, state = 0,
      counter = c, hue1 = h1, hue2 = h2, ptr1 = p1, ptr2 = p2, wire = []\<rparr>"

subsection \<open>The main loop of the Wheel of Fortune sketch\<close>

text \<open>
  What the sketch does to the outside, in order: a call \<open>NEO_setPixel(number, hue)\<close>
  or a call \<open>delayms(time)\<close>.
\<close>

datatype event = SetPixel u8 u8 | DelayMs u8

text \<open>\<open>if (++hue > 191) hue = 0\<close> and \<open>number = (number + 1) & 15\<close>.\<close>

definition next_hue :: "u8 \<Rightarrow> u8" where
  "next_hue hue = (let hue = hue + 1 in if hue > 191 then 0 else hue)"

definition next_number :: "u8 \<Rightarrow> u8" where
  "next_number number = (number + 1) AND 15"

text \<open>
  \<open>while (--speed) { ... }\<close>: the result is the events of the loop and the values of
  \<open>speed\<close>, \<open>number\<close> and \<open>hue\<close> at its exit.
\<close>

function speed_up :: "u8 \<Rightarrow> u8 \<Rightarrow> u8 \<Rightarrow> event list \<times> u8 \<times> u8 \<times> u8" where
  "speed_up speed number hue =
     (let speed = speed - 1
      in if speed \<noteq> 0
         then (let hue = next_hue hue;
                   number = next_number number;
                   (evs, final) = speed_up speed number hue
               in (SetPixel number hue # DelayMs speed # evs, final))
         else ([], speed, number, hue))"
  by pat_completeness auto
termination
proof (relation "measure (\<lambda>(speed, number, hue). unat (speed - 1))", goal_cases)
  case 1
  show ?case by simp
next
  case (2 speed number hue x xa xb)
  have "unat (x - 1) = unat x - 1"
    using 2(2) by (rule unat_minus_one)
  moreover have "0 < unat x"
    using 2(2) by (simp add: unat_gt_0)
  ultimately have "unat (x - 1) < unat x"
    by arith
  then have "unat (x - 1) < unat (speed - 1)"
    by (simp only: 2(1))
  then show ?case
    by simp
qed

text \<open>\<open>while (++speed < 96) { ... }\<close>.\<close>

function slow_down :: "u8 \<Rightarrow> u8 \<Rightarrow> u8 \<Rightarrow> event list \<times> u8 \<times> u8 \<times> u8" where
  "slow_down speed number hue =
     (let speed = speed + 1
      in if speed < 96
         then (let hue = next_hue hue;
                   number = next_number number;
                   (evs, final) = slow_down speed number hue
               in (SetPixel number hue # DelayMs speed # evs, final))
         else ([], speed, number, hue))"
  by pat_completeness auto
termination
proof (relation "measure (\<lambda>(speed, number, hue). unat (95 - speed))", goal_cases)
  case 1
  show ?case by simp
next
  case (2 speed number hue x xa xb)
  have le: "x \<le> 95" "x \<le> 96"
    using 2(2) by (simp_all add: word_less_nat_alt word_le_nat_alt)
  have "unat (95 - x) = 95 - unat x"
    using unat_sub [OF le(1)] by simp
  moreover have "unat (96 - x) = 96 - unat x"
    using unat_sub [OF le(2)] by simp
  moreover have "unat x < 96"
    using 2(2) by (simp add: word_less_nat_alt)
  ultimately have "unat (95 - x) < unat (96 - x)"
    by arith
  moreover have "95 - speed = 96 - x"
    using 2(1) by simp
  ultimately have "unat (95 - x) < unat (95 - speed)"
    by (simp only:)
  then show ?case
    by simp
qed

text \<open>The two loops that follow a button press, from a given starting speed.\<close>

definition spin :: "u8 \<Rightarrow> u8 \<Rightarrow> u8 \<Rightarrow> event list \<times> u8 \<times> u8 \<times> u8" where
  "spin speed number hue =
     (let (evs1, speed, number, hue) = speed_up speed number hue;
          (evs2, speed, number, hue) = slow_down speed number hue
      in (evs1 @ evs2, speed, number, hue))"

text \<open>\<open>speed = 16 + (TCNT0 & 15)\<close>, then the spin; \<open>tcnt0\<close> is the timer value read.\<close>

definition button_pressed :: "u8 \<Rightarrow> u8 \<Rightarrow> u8 \<Rightarrow> event list \<times> u8 \<times> u8 \<times> u8" where
  "button_pressed tcnt0 number hue = spin (16 + (tcnt0 AND 15)) number hue"

text \<open>The (position, hue) pairs rendered by a sequence of events.\<close>

fun rendered :: "event list \<Rightarrow> (u8 \<times> u8) list" where
  "rendered [] = []"
| "rendered (SetPixel number hue # evs) = (number, hue) # rendered evs"
| "rendered (DelayMs time # evs) = rendered evs"

subsection \<open>Well-formed buffers and the control part of the ambient machine\<close>

text \<open>
  The buffers of a machine the main loop can be in: 16 entries each, every brightness in
  0..6 and every stored hue below 192.
\<close>

definition buffer_ok :: "machine \<Rightarrow> bool" where
  "buffer_ok s \<longleftrightarrow>
     length (NEO_hue s) = 16 \<and> length (NEO_bright s) = 16
     \<and> (\<forall>b\<in>set (NEO_bright s). unat b \<le> 6) \<and> (\<forall>h\<in>set (NEO_hue s). unat h < 192)"

text \<open>
  The locals \<open>state\<close>, \<open>counter\<close>, \<open>hue1\<close>, \<open>hue2\<close>, \<open>ptr1\<close>, \<open>ptr2\<close> of a
  machine, and what one pass of the loop does to them: \<open>animate_ctl\<close> is the effect of
  the \<open>switch\<close> on these six values (they depend neither on the buffers nor on
  \<open>rn\<close>), \<open>count_ctl\<close> the countdown that follows it.
\<close>

type_synonym ctl = "u8 \<times> u8 \<times> u8 \<times> u8 \<times> u8 \<times> u8"

definition ctl_of :: "machine \<Rightarrow> ctl" where
  "ctl_of s = (state s, counter s, hue1 s, hue2 s, ptr1 s, ptr2 s)"

definition animate_ctl :: "ctl \<Rightarrow> ctl" where
  "animate_ctl = (\<lambda>(st, c, h1, h2, p1, p2).
     if st = 0 then (st, 1, 0, 96, 0, 8)
     else if st = 1 then
       (st, c, wrap192 (h1 + 4), wrap192 (h2 + 4), (p1 + 1) AND 0x0F, (p2 + 1) AND 0x0F)
     else if st = 3 then (st, 1, h1, h2, p1, p2)
     else if st = 5 then (st, 1, 192, h2, p1, p2)
     else if st = 7 then (st, c, wrap192 (h1 + 3), h2, p1, p2)
     else (st, c, h1, h2, p1, p2))"

definition count_ctl :: "ctl \<Rightarrow> ctl" where
  "count_ctl = (\<lambda>(st, c, h1, h2, p1, p2).
     if c - 1 = 0 then ((if st + 1 > 7 then 0 else st + 1), 76, h1, h2, p1, p2)
     else (st, c - 1, h1, h2, p1, p2))"

definition ctl_step :: "ctl \<Rightarrow> ctl" where
  "ctl_step c = count_ctl (animate_ctl c)"

section \<open>The colour encoder\<close>

lemma NEO_writeColor_length: "length (NEO_writeColor r g b) = 3"
  by (simp add: NEO_writeColor_def NEO_sendByte_def)

lemma unat_u8_less: "unat (x :: u8) < 256"
  using unsigned_less [of x, where 'a = nat] by simp

lemma phase_unat: "unat (drop_bit 6 (hue :: u8)) = unat hue div 64"
  by (simp add: drop_bit_eq_div unat_div)

lemma phase_cases:
  "(drop_bit 6 (hue :: u8) = 0 \<or> drop_bit 6 hue = 1 \<or> drop_bit 6 hue = 2) \<longleftrightarrow> unat hue < 192"
proof -
  have "(drop_bit 6 hue = 0) = (unat (drop_bit 6 hue) = 0)"
       "(drop_bit 6 hue = 1) = (unat (drop_bit 6 hue) = 1)"
       "(drop_bit 6 hue = 2) = (unat (drop_bit 6 hue) = 2)"
    using word_unat_eq_iff [of "drop_bit 6 hue" 0] word_unat_eq_iff [of "drop_bit 6 hue" 1]
      word_unat_eq_iff [of "drop_bit 6 hue" 2]
    by simp_all
  then show ?thesis
    unfolding phase_unat by (simp only:) arith
qed

lemma step_le: "unat (hue AND 63 :: u8) \<le> 63"
  using word_and_le1 [of hue 63] by (simp add: word_le_nat_alt)

lemma wh_step_unat: "unat (wh_step hue) = 4 * unat (hue AND 63)"
proof -
  have "unat (push_bit 2 (hue AND 63)) = take_bit 8 (push_bit 2 (unat (hue AND 63)))"
    by (simp only: unsigned_push_bit_eq) simp
  also have "\<dots> = push_bit 2 (unat (hue AND 63))"
    using step_le [of hue] by (simp add: take_bit_nat_eq_self_iff push_bit_eq_mult)
  finally show ?thesis unfolding wh_step_def by (simp only: push_bit_eq_mult) simp
qed

lemma wh_sum: "unat (wh_step hue) + unat (wh_nstep hue) = 252"
proof -
  have le: "wh_step hue \<le> 252"
    using step_le [of hue] by (simp add: word_le_nat_alt wh_step_unat)
  have "unat (252 - wh_step hue) = 252 - unat (wh_step hue)"
    using unat_sub [OF le] by simp
  moreover have "unat (wh_step hue) \<le> 252"
    using le by (simp add: word_le_nat_alt)
  ultimately show ?thesis
    by (simp add: wh_nstep_def)
qed

lemma sh_sum: "unat (sh_step hue) + unat (63 - sh_step hue) = 63"
proof -
  have le: "sh_step hue \<le> 63"
    using step_le [of hue] by (simp add: word_le_nat_alt sh_step_def)
  have "unat (63 - sh_step hue) = 63 - unat (sh_step hue)"
    using unat_sub [OF le] by simp
  moreover have "unat (sh_step hue) \<le> 63"
    using le by (simp add: word_le_nat_alt)
  ultimately show ?thesis
    by simp
qed

lemma boundary_hues:
  assumes "unat (hue :: u8) < 192" "unat hue mod 64 = 0"
  shows "hue = 0 \<or> hue = 64 \<or> hue = 128"
proof -
  have "unat hue = 0 \<or> unat hue = 64 \<or> unat hue = 128"
    using assms by arith
  then show ?thesis
    using word_unat_eq_iff [of hue 0] word_unat_eq_iff [of hue 64] word_unat_eq_iff [of hue 128]
    by simp
qed

lemma NEO_writeHue_length: "length (NEO_writeHue hue) = (if unat hue < 192 then 3 else 0)"
  using phase_cases [of hue]
  by (auto simp: NEO_writeHue_def wh_phase_def Let_def NEO_writeColor_length)

lemma shr_defined:
  assumes "unat bright \<le> 6"
  shows "shr x (shift_count bright) = Some (drop_bit (6 - unat bright) x)"
proof -
  have u: "uint bright = int (unat bright)"
    by (rule uint_nat)
  have "0 \<le> 6 - uint bright" "6 - uint bright < 16" "nat (6 - uint bright) = 6 - unat bright"
    using assms unfolding u by linarith+
  then show ?thesis
    by (simp add: shr_def shift_count_def)
qed

lemma drop_bit_le: "unat (drop_bit n (x :: u8)) \<le> unat x"
  by (simp add: drop_bit_eq_div unat_div div_le_dividend)

lemma pgm_read_gamma_defined: "unat k \<le> 63 \<Longrightarrow> pgm_read_gamma k = Some (gamma ! unat k)"
  by (simp add: pgm_read_gamma_def gamma_def)

lemma col_defined:
  assumes "unat bright \<le> 6" "unat step \<le> 63"
  shows "col step bright = Some (gamma ! unat (drop_bit (6 - unat bright) step))"
proof -
  have "unat (drop_bit (6 - unat bright) step) \<le> 63"
    using drop_bit_le [of "6 - unat bright" step] assms(2) by simp
  then show ?thesis
    by (simp add: col_def shr_defined [OF assms(1)] pgm_read_gamma_defined)
qed

lemma ncol_defined:
  assumes "unat bright \<le> 6" "unat step \<le> 63"
  shows "ncol step bright = Some (gamma ! unat (drop_bit (6 - unat bright) (63 - step)))"
proof -
  have le: "step \<le> 63" using assms(2) by (simp add: word_le_nat_alt)
  have "unat (63 - step) \<le> 63" using unat_sub [OF le] by simp
  then have "unat (drop_bit (6 - unat bright) (63 - step)) \<le> 63"
    using drop_bit_le [of "6 - unat bright" "63 - step"] by simp
  then show ?thesis
    by (simp add: ncol_def shr_defined [OF assms(1)] pgm_read_gamma_defined)
qed

lemma show_pixel_defined:
  assumes "unat bright \<le> 6"
  shows "\<exists>bytes. show_pixel hue bright = Some bytes \<and> length bytes = (if unat hue < 192 then 3 else 0)"
  using phase_cases [of hue] step_le [of hue]
  by (auto simp: show_pixel_def sh_phase_def sh_step_def Let_def NEO_writeColor_length
        col_defined [OF assms] ncol_defined [OF assms])


lemma bright_cases:
  assumes "unat (bright :: u8) \<le> 6"
  shows "bright = 0 \<or> bright = 1 \<or> bright = 2 \<or> bright = 3 \<or> bright = 4 \<or> bright = 5 \<or> bright = 6"
proof -
  have "unat bright = 0 \<or> unat bright = 1 \<or> unat bright = 2 \<or> unat bright = 3
      \<or> unat bright = 4 \<or> unat bright = 5 \<or> unat bright = 6"
    using assms by arith
  then show ?thesis
    using word_unat_eq_iff [of bright 0] word_unat_eq_iff [of bright 1]
      word_unat_eq_iff [of bright 2] word_unat_eq_iff [of bright 3]
      word_unat_eq_iff [of bright 4] word_unat_eq_iff [of bright 5]
      word_unat_eq_iff [of bright 6]
    by simp
qed

lemma writeHue_boundary: "zero_channels (NEO_writeHue 0) = 2"
  "zero_channels (NEO_writeHue 64) = 2" "zero_channels (NEO_writeHue 128) = 2"
  by (simp_all add: zero_channels_def NEO_writeHue_def wh_phase_def wh_step_def wh_nstep_def
      NEO_writeColor_def NEO_sendByte_def)

lemma show_boundary_0:
  "map (\<lambda>b. map_option zero_channels (show_pixel 0 b)) [0, 1, 2, 3, 4, 5, 6]
     = [Some 3, Some 3, Some 3, Some 2, Some 2, Some 2, Some 2]"
  by code_simp

lemma show_boundary_64:
  "map (\<lambda>b. map_option zero_channels (show_pixel 64 b)) [0, 1, 2, 3, 4, 5, 6]
     = [Some 3, Some 3, Some 3, Some 2, Some 2, Some 2, Some 2]"
  by code_simp

lemma show_boundary_128:
  "map (\<lambda>b. map_option zero_channels (show_pixel 128 b)) [0, 1, 2, 3, 4, 5, 6]
     = [Some 3, Some 3, Some 3, Some 2, Some 2, Some 2, Some 2]"
  by code_simp

lemma show_boundary:
  assumes "hue = 0 \<or> hue = 64 \<or> hue = 128" "unat bright \<le> 6"
  shows "map_option zero_channels (show_pixel hue bright) = Some (if unat bright < 3 then 3 else 2)"
  using assms(1) bright_cases [OF assms(2)] show_boundary_0 show_boundary_64 show_boundary_128
  by auto

text \<open>
  Claim C1 as stated fails at hue 0, a phase boundary: \<open>NEO_writeHue\<close> sends
  green 0, red 252, blue 0 and \<open>NEO_show\<close> at brightness 6 sends 0, 255, 0,
  so two channels are zero, not exactly one; and the two ramp values of
  \<open>NEO_show\<close> sum to 63, not 252.
\<close>

theorem C1_counterexample:
  "NEO_writeHue 0 = [0, 252, 0] \<and> zero_channels (NEO_writeHue 0) \<noteq> 1
   \<and> show_pixel 0 6 = Some [0, 255, 0] \<and> map_option zero_channels (show_pixel 0 6) \<noteq> Some 1
   \<and> unat (sh_step 0) + unat (63 - sh_step 0) \<noteq> 252"
  by code_simp

text \<open>
  Claim C1 (amended): for every hue in [0,192) the locals of \<open>NEO_writeHue\<close>
  satisfy step + nstep = 252, the two ramp values of \<open>NEO_show\<close> sum to 63,
  and at a phase boundary (hue mod 64 = 0) exactly two of the three bytes sent by
  \<open>NEO_writeHue\<close> are zero; \<open>NEO_show\<close> sends two zero bytes
  there at brightness 3 to 6 and three at brightness 0 to 2.
\<close>

theorem C1_phase_decomposition:
  assumes "unat hue < 192"
  shows "unat (wh_step hue) + unat (wh_nstep hue) = 252
     \<and> unat (sh_step hue) + unat (63 - sh_step hue) = 63
     \<and> (unat hue mod 64 = 0 \<longrightarrow>
          zero_channels (NEO_writeHue hue) = 2
          \<and> (\<forall>bright. unat bright \<le> 6 \<longrightarrow>
                map_option zero_channels (show_pixel hue bright)
                  = Some (if unat bright < 3 then 3 else 2)))"
proof (intro conjI impI allI)
  show "unat (wh_step hue) + unat (wh_nstep hue) = 252" by (rule wh_sum)
  show "unat (sh_step hue) + unat (63 - sh_step hue) = 63" by (rule sh_sum)
next
  assume "unat hue mod 64 = 0"
  with assms have b: "hue = 0 \<or> hue = 64 \<or> hue = 128" by (rule boundary_hues)
  then show "zero_channels (NEO_writeHue hue) = 2"
    using writeHue_boundary by auto
  fix bright :: u8
  assume "unat bright \<le> 6"
  with b show "map_option zero_channels (show_pixel hue bright)
      = Some (if unat bright < 3 then 3 else 2)"
    by (rule show_boundary)
qed

text \<open>
  Claim C1, witness: hue 64 and brightness 4.
\<close>

theorem C1_phase_decomposition_witness:
  "unat (64 :: u8) < 192 \<and> unat (64 :: u8) mod 64 = 0 \<and> unat (4 :: u8) \<le> 6
   \<and> unat (wh_step 64) + unat (wh_nstep 64) = 252
   \<and> zero_channels (NEO_writeHue 64) = 2
   \<and> map_option zero_channels (show_pixel 64 4) = Some 2"
proof -
  have h: "unat (64 :: u8) < 192" and m: "unat (64 :: u8) mod 64 = 0"
    and b: "unat (4 :: u8) \<le> 6"
    by simp_all
  note t = C1_phase_decomposition [OF h]
  have "map_option zero_channels (show_pixel 64 4) = Some (if unat (4 :: u8) < 3 then 3 else 2)"
    using t m b by blast
  moreover have "zero_channels (NEO_writeHue 64) = 2"
    using t m by blast
  moreover have "unat (wh_step 64) + unat (wh_nstep 64) = 252"
    using t by blast
  ultimately show ?thesis
    by simp
qed

text \<open>
  Claim C5: for every step in [0,63], at brightness 0 both gamma-corrected channel
  values of \<open>NEO_show\<close> are 0, and at brightness 6 the shift count is 0, so
  the index into the gamma table is the step itself (and 63 - step for the falling
  channel).
\<close>

theorem C5_gamma_scaling:
  assumes "unat step \<le> 63"
  shows "col step 0 = Some 0 \<and> ncol step 0 = Some 0
     \<and> shr step (shift_count 6) = Some step
     \<and> shr (63 - step) (shift_count 6) = Some (63 - step)
     \<and> col step 6 = Some (gamma ! unat step)
     \<and> ncol step 6 = Some (gamma ! unat (63 - step))"
proof -
  have le: "step \<le> 63" using assms by (simp add: word_le_nat_alt)
  have n: "unat (63 - step) \<le> 63" using unat_sub [OF le] by simp
  have z: "drop_bit 6 x = 0" if "unat x \<le> 63" for x :: u8
  proof -
    have "unat (drop_bit 6 x) = 0" using that by (simp add: phase_unat)
    then show ?thesis by (simp only: unat_eq_0)
  qed
  have g0: "gamma ! 0 = 0" by (simp add: gamma_def)
  have b0: "unat (0 :: u8) \<le> 6" and b6: "unat (6 :: u8) \<le> 6" by simp_all
  show ?thesis
    using col_defined [OF b0 assms] ncol_defined [OF b0 assms] col_defined [OF b6 assms]
      ncol_defined [OF b6 assms] shr_defined [OF b6, of step] shr_defined [OF b6, of "63 - step"]
    by (simp add: z [OF assms] z [OF n] g0)
qed

text \<open>
  Claim C5, witness: step 40.
\<close>

theorem C5_gamma_scaling_witness:
  "unat (40 :: u8) \<le> 63 \<and> col 40 0 = Some 0 \<and> ncol 40 0 = Some 0
   \<and> shr 40 (shift_count 6) = Some 40 \<and> col 40 6 = Some 73"
  using C5_gamma_scaling [of 40] by (simp add: gamma_def)

section \<open>The pseudo random number generator\<close>

lemma lfsr_galois: "lfsr r = galois_step r"
proof (cases "odd r")
  case True
  then have "r AND 1 = 1" by (simp add: and_one_eq mod_2_eq_odd)
  with True show ?thesis by (simp add: lfsr_def galois_step_def bit_0)
next
  case False
  then have "r AND 1 = 0" by (simp add: and_one_eq mod_2_eq_odd)
  with False show ?thesis by (simp add: lfsr_def galois_step_def bit_0)
qed

lemma galois_step_nonzero:
  assumes "r \<noteq> 0"
  shows "galois_step r \<noteq> 0"
proof (cases "odd r")
  case True
  have "\<not> bit r 16"
    using bit_imp_le_length [of r 16] by auto
  then have "bit (drop_bit 1 r XOR (0xB400 :: u16)) 15"
    by (simp add: bit_xor_iff bit_drop_bit_eq bit_word_iff_drop_bit_and [of "0xB400 :: u16"])
  then have "drop_bit 1 r XOR (0xB400 :: u16) \<noteq> 0"
    by auto
  with True show ?thesis by (simp add: galois_step_def bit_0)
next
  case False
  have "r = 2 * (r div 2) + r mod 2" by (rule mult_div_mod_eq [symmetric])
  with False assms have "r div 2 \<noteq> 0" by (auto simp: mod_2_eq_odd)
  with False show ?thesis by (simp add: galois_step_def bit_0 drop_bit_eq_div)
qed

lemma lfsr_funpow_nonzero: "r \<noteq> 0 \<Longrightarrow> (lfsr ^^ n) r \<noteq> 0"
  by (induction n) (simp_all add: lfsr_galois galois_step_nonzero)

lemma prng_eq:
  "maxvalue \<noteq> 0 \<Longrightarrow> prng maxvalue s = Some (lfsr (rn s) mod maxvalue, s\<lparr>rn := lfsr (rn s)\<rparr>)"
  by (simp add: prng_def Let_def)

lemma prng_seq_rn: "rn s' = rn s \<Longrightarrow> prng_seq n maxvalue s' = prng_seq n maxvalue s"
proof (induction n arbitrary: s s')
  case 0
  show ?case by simp
next
  case (Suc n)
  show ?case
  proof (cases "maxvalue = 0")
    case True
    then show ?thesis by (simp add: prng_def Let_def)
  next
    case False
    have "prng_seq n maxvalue (s'\<lparr>rn := lfsr (rn s')\<rparr>) = prng_seq n maxvalue (s\<lparr>rn := lfsr (rn s)\<rparr>)"
      by (rule Suc.IH) (simp add: Suc.prems)
    then show ?thesis
      by (simp add: prng_eq [OF False] Suc.prems)
  qed
qed

lemma prng_seq_bound:
  "maxvalue \<noteq> 0 \<Longrightarrow> \<exists>vs. prng_seq n maxvalue s = Some vs \<and> length vs = n \<and> (\<forall>v\<in>set vs. v < maxvalue)"
proof (induction n arbitrary: s)
  case 0
  show ?case by simp
next
  case (Suc n)
  from Suc.IH [OF Suc.prems, of "s\<lparr>rn := lfsr (rn s)\<rparr>"]
  obtain vs where "prng_seq n maxvalue (s\<lparr>rn := lfsr (rn s)\<rparr>) = Some vs" "length vs = n"
    "\<forall>v\<in>set vs. v < maxvalue" by blast
  moreover have "lfsr (rn s) mod maxvalue < maxvalue"
    using Suc.prems by (simp add: word_mod_less_divisor word_greater_zero_iff)
  ultimately show ?case
    by (simp add: prng_eq [OF Suc.prems])
qed

lemma golden: "prng_seq 8 16 (power_on 0 0 0 0 0) = Some [0, 8, 12, 14, 7, 3, 9, 4]"
  by code_simp

text \<open>
  Claim C3: for every nonzero bound and every machine, \<open>prng\<close> advances
  \<open>rn\<close> by one Galois step (shift right, taps 0xB400) and returns the new
  \<open>rn\<close> modulo the bound, which is below the bound; any number of calls is
  defined with all values below the bound, the sequence depends on the machine through
  \<open>rn\<close> only, and from the seed 0xACE1 with bound 16 it starts 0, 8, 12, 14,
  7, 3, 9, 4.
\<close>

theorem C3_prng:
  assumes "maxvalue \<noteq> 0"
  shows "prng maxvalue s = Some (galois_step (rn s) mod maxvalue, s\<lparr>rn := galois_step (rn s)\<rparr>)
     \<and> galois_step (rn s) mod maxvalue < maxvalue
     \<and> (\<forall>n. \<exists>vs. prng_seq n maxvalue s = Some vs \<and> length vs = n \<and> (\<forall>v\<in>set vs. v < maxvalue))
     \<and> (\<forall>n s'. rn s' = rn s \<longrightarrow> prng_seq n maxvalue s' = prng_seq n maxvalue s)
     \<and> (rn s = seed \<longrightarrow> prng_seq 8 16 s = Some [0, 8, 12, 14, 7, 3, 9, 4])"
proof (intro conjI allI impI)
  show "prng maxvalue s = Some (galois_step (rn s) mod maxvalue, s\<lparr>rn := galois_step (rn s)\<rparr>)"
    using prng_eq [OF assms] by (simp add: lfsr_galois)
  show "galois_step (rn s) mod maxvalue < maxvalue"
    using assms by (simp add: word_mod_less_divisor word_greater_zero_iff)
  show "\<exists>vs. prng_seq n maxvalue s = Some vs \<and> length vs = n \<and> (\<forall>v\<in>set vs. v < maxvalue)" for n
    using assms by (rule prng_seq_bound)
  show "prng_seq n maxvalue s' = prng_seq n maxvalue s" if "rn s' = rn s" for n s'
    using that by (rule prng_seq_rn)
  show "prng_seq 8 16 s = Some [0, 8, 12, 14, 7, 3, 9, 4]" if "rn s = seed"
  proof -
    have "rn s = rn (power_on 0 0 0 0 0)" using that by (simp add: power_on_def)
    then have "prng_seq 8 16 s = prng_seq 8 16 (power_on 0 0 0 0 0)" by (rule prng_seq_rn)
    then show ?thesis by (simp only: golden)
  qed
qed

text \<open>
  Claim C3, witness: bound 16 on the machine at power-on.
\<close>

theorem C3_prng_witness:
  "(16 :: u16) \<noteq> 0 \<and> rn (power_on 0 0 0 0 0) = seed
   \<and> map_option fst (prng 16 (power_on 0 0 0 0 0)) = Some 0
   \<and> map_option (rn \<circ> snd) (prng 16 (power_on 0 0 0 0 0)) = Some 0xE270
   \<and> prng_seq 8 16 (power_on 0 0 0 0 0) = Some [0, 8, 12, 14, 7, 3, 9, 4]"
proof -
  have nz: "(16 :: u16) \<noteq> 0" by simp
  have sd: "rn (power_on 0 0 0 0 0) = seed" by (simp add: power_on_def)
  have g: "galois_step seed = 0xE270" by (simp add: galois_step_def seed_def bit_0)
  note t = C3_prng [OF nz, of "power_on 0 0 0 0 0"]
  have "prng 16 (power_on 0 0 0 0 0)
      = Some (galois_step seed mod 16, power_on 0 0 0 0 0\<lparr>rn := galois_step seed\<rparr>)"
    using t sd by simp
  moreover have "prng_seq 8 16 (power_on 0 0 0 0 0) = Some [0, 8, 12, 14, 7, 3, 9, 4]"
    using t sd by blast
  ultimately show ?thesis
    using sd by (simp add: g)
qed

text \<open>
  Claim C9: one step of the shift register maps a nonzero \<open>rn\<close> to a nonzero
  \<open>rn\<close>, so no number of steps from the seed 0xACE1 reaches zero.
\<close>

theorem C9_lfsr_nonzero:
  "(r \<noteq> 0 \<longrightarrow> lfsr r \<noteq> 0) \<and> (lfsr ^^ n) seed \<noteq> 0"
proof
  show "r \<noteq> 0 \<longrightarrow> lfsr r \<noteq> 0"
    by (simp add: lfsr_galois galois_step_nonzero)
  have "seed \<noteq> 0" by (simp add: seed_def)
  then show "(lfsr ^^ n) seed \<noteq> 0" by (rule lfsr_funpow_nonzero)
qed

text \<open>
  Claim C9, witness: the state 1, and three steps from the seed.
\<close>

theorem C9_lfsr_nonzero_witness:
  "(1 :: u16) \<noteq> 0 \<and> lfsr 1 = 0xB400 \<and> lfsr 1 \<noteq> 0 \<and> (lfsr ^^ 3) seed \<noteq> 0"
proof -
  have "lfsr 1 = 0xB400" by (simp add: lfsr_def)
  then show ?thesis
    using C9_lfsr_nonzero [of 1 3] by simp
qed

section \<open>Pixel buffer operations\<close>

lemma length_16:
  assumes "length xs = 16"
  obtains x0 x1 x2 x3 x4 x5 x6 x7 x8 x9 x10 x11 x12 x13 x14 x15
  where "xs = [x0, x1, x2, x3, x4, x5, x6, x7, x8, x9, x10, x11, x12, x13, x14, x15]"
proof -
  have "length xs = Suc (Suc (Suc (Suc (Suc (Suc (Suc (Suc (Suc (Suc (Suc (Suc (Suc (Suc (Suc (Suc 0)))))))))))))))"
    using assms by simp
  then show ?thesis
    using that by (auto simp: length_Suc_conv)
qed

lemma down_15: "rev [1..<16] = [15, 14, 13, 12, 11, 10, 9, 8, 7, 6, 5, 4, 3, 2, Suc 0]"
  by code_simp

lemma up_15: "[0..<15] = [0, Suc 0, 2, 3, 4, 5, 6, 7, 8, 9, 10, 11, 12, 13, 14]"
  by code_simp

lemma NEO_cw_explicit:
  assumes "NEO_hue s = [h0, h1, h2, h3, h4, h5, h6, h7, h8, h9, h10, h11, h12, h13, h14, h15]"
    and "NEO_bright s = [b0, b1, b2, b3, b4, b5, b6, b7, b8, b9, b10, b11, b12, b13, b14, b15]"
  shows "NEO_cw s = s\<lparr>NEO_bright := [b15, b0, b1, b2, b3, b4, b5, b6, b7, b8, b9, b10, b11, b12, b13, b14],
                       NEO_hue := [h15, h0, h1, h2, h3, h4, h5, h6, h7, h8, h9, h10, h11, h12, h13, h14]\<rparr>"
  unfolding NEO_cw_def Let_def down_15 by (simp add: assms)

lemma NEO_ccw_explicit:
  assumes "NEO_hue s = [h0, h1, h2, h3, h4, h5, h6, h7, h8, h9, h10, h11, h12, h13, h14, h15]"
    and "NEO_bright s = [b0, b1, b2, b3, b4, b5, b6, b7, b8, b9, b10, b11, b12, b13, b14, b15]"
  shows "NEO_ccw s = s\<lparr>NEO_bright := [b1, b2, b3, b4, b5, b6, b7, b8, b9, b10, b11, b12, b13, b14, b15, b0],
                       NEO_hue := [h1, h2, h3, h4, h5, h6, h7, h8, h9, h10, h11, h12, h13, h14, h15, h0]\<rparr>"
  unfolding NEO_ccw_def Let_def up_15 by (simp add: assms)


lemma funpow_16: "(f ^^ 16) x = f (f (f (f (f (f (f (f (f (f (f (f (f (f (f (f x)))))))))))))))"
  by (simp add: eval_nat_numeral funpow_swap1)

lemma NEO_cw_update:
  "NEO_cw (t\<lparr>NEO_bright := [b0, b1, b2, b3, b4, b5, b6, b7, b8, b9, b10, b11, b12, b13, b14, b15],
               NEO_hue := [h0, h1, h2, h3, h4, h5, h6, h7, h8, h9, h10, h11, h12, h13, h14, h15]\<rparr>)
   = t\<lparr>NEO_bright := [b15, b0, b1, b2, b3, b4, b5, b6, b7, b8, b9, b10, b11, b12, b13, b14],
        NEO_hue := [h15, h0, h1, h2, h3, h4, h5, h6, h7, h8, h9, h10, h11, h12, h13, h14]\<rparr>"
  by (subst NEO_cw_explicit) simp_all

lemma NEO_ccw_update:
  "NEO_ccw (t\<lparr>NEO_bright := [b0, b1, b2, b3, b4, b5, b6, b7, b8, b9, b10, b11, b12, b13, b14, b15],
               NEO_hue := [h0, h1, h2, h3, h4, h5, h6, h7, h8, h9, h10, h11, h12, h13, h14, h15]\<rparr>)
   = t\<lparr>NEO_bright := [b1, b2, b3, b4, b5, b6, b7, b8, b9, b10, b11, b12, b13, b14, b15, b0],
        NEO_hue := [h1, h2, h3, h4, h5, h6, h7, h8, h9, h10, h11, h12, h13, h14, h15, h0]\<rparr>"
  by (subst NEO_ccw_explicit) simp_all

lemma index_16:
  assumes "k < (16 :: nat)"
  shows "k \<in> {0, 1, 2, 3, 4, 5, 6, 7, 8, 9, 10, 11, 12, 13, 14, 15}"
proof -
  have "k \<in> {0, 1, 2, 3, 4, 5, 6, 7} \<or> k \<in> {8, 9, 10, 11, 12, 13, 14, 15}"
    using assms unfolding insert_iff empty_iff by arith
  then show ?thesis
    by blast
qed

lemma NEO_cw_closed:
  assumes "length (NEO_hue s) = 16" "length (NEO_bright s) = 16"
  shows "NEO_cw s = s\<lparr>NEO_bright := last (NEO_bright s) # butlast (NEO_bright s),
                       NEO_hue := last (NEO_hue s) # butlast (NEO_hue s)\<rparr>"
proof -
  obtain h0 h1 h2 h3 h4 h5 h6 h7 h8 h9 h10 h11 h12 h13 h14 h15
    where h: "NEO_hue s = [h0, h1, h2, h3, h4, h5, h6, h7, h8, h9, h10, h11, h12, h13, h14, h15]"
    using assms(1) by (rule length_16)
  obtain b0 b1 b2 b3 b4 b5 b6 b7 b8 b9 b10 b11 b12 b13 b14 b15
    where b: "NEO_bright s = [b0, b1, b2, b3, b4, b5, b6, b7, b8, b9, b10, b11, b12, b13, b14, b15]"
    using assms(2) by (rule length_16)
  show ?thesis
    unfolding NEO_cw_explicit [OF h b] by (simp add: h b)
qed

lemma NEO_ccw_closed:
  assumes "length (NEO_hue s) = 16" "length (NEO_bright s) = 16"
  shows "NEO_ccw s = s\<lparr>NEO_bright := rotate1 (NEO_bright s), NEO_hue := rotate1 (NEO_hue s)\<rparr>"
proof -
  obtain h0 h1 h2 h3 h4 h5 h6 h7 h8 h9 h10 h11 h12 h13 h14 h15
    where h: "NEO_hue s = [h0, h1, h2, h3, h4, h5, h6, h7, h8, h9, h10, h11, h12, h13, h14, h15]"
    using assms(1) by (rule length_16)
  obtain b0 b1 b2 b3 b4 b5 b6 b7 b8 b9 b10 b11 b12 b13 b14 b15
    where b: "NEO_bright s = [b0, b1, b2, b3, b4, b5, b6, b7, b8, b9, b10, b11, b12, b13, b14, b15]"
    using assms(2) by (rule length_16)
  show ?thesis
    unfolding NEO_ccw_explicit [OF h b] by (simp add: h b)
qed

text \<open>
  Claim C4: on buffers of 16 hues and 16 brightness values, 16 applications of
  \<open>NEO_cw\<close> give back the machine unchanged, and so do 16 applications of
  \<open>NEO_ccw\<close>; one \<open>NEO_cw\<close> moves the hue and the brightness of
  position i together to position (i + 1) mod 16, and one \<open>NEO_ccw\<close> moves
  those of position (i + 1) mod 16 to position i.
\<close>

theorem C4_rotation:
  assumes "length (NEO_hue s) = 16" "length (NEO_bright s) = 16"
  shows "(NEO_cw ^^ 16) s = s \<and> (NEO_ccw ^^ 16) s = s
     \<and> (\<forall>i<16. NEO_hue (NEO_cw s) ! ((i + 1) mod 16) = NEO_hue s ! i
               \<and> NEO_bright (NEO_cw s) ! ((i + 1) mod 16) = NEO_bright s ! i)
     \<and> (\<forall>i<16. NEO_hue (NEO_ccw s) ! i = NEO_hue s ! ((i + 1) mod 16)
               \<and> NEO_bright (NEO_ccw s) ! i = NEO_bright s ! ((i + 1) mod 16))"
proof -
  obtain h0 h1 h2 h3 h4 h5 h6 h7 h8 h9 h10 h11 h12 h13 h14 h15
    where h: "NEO_hue s = [h0, h1, h2, h3, h4, h5, h6, h7, h8, h9, h10, h11, h12, h13, h14, h15]"
    using assms(1) by (rule length_16)
  obtain b0 b1 b2 b3 b4 b5 b6 b7 b8 b9 b10 b11 b12 b13 b14 b15
    where b: "NEO_bright s = [b0, b1, b2, b3, b4, b5, b6, b7, b8, b9, b10, b11, b12, b13, b14, b15]"
    using assms(2) by (rule length_16)
  have s: "s = s\<lparr>NEO_bright := [b0, b1, b2, b3, b4, b5, b6, b7, b8, b9, b10, b11, b12, b13, b14, b15],
                  NEO_hue := [h0, h1, h2, h3, h4, h5, h6, h7, h8, h9, h10, h11, h12, h13, h14, h15]\<rparr>"
    using h b by simp
  have cw: "(NEO_cw ^^ 16) s = s"
    unfolding funpow_16 by (subst s, simp only: NEO_cw_update) (rule s [symmetric])
  have ccw: "(NEO_ccw ^^ 16) s = s"
    unfolding funpow_16 by (subst s, simp only: NEO_ccw_update) (rule s [symmetric])
  have pcw: "NEO_hue (NEO_cw s) ! ((i + 1) mod 16) = NEO_hue s ! i
      \<and> NEO_bright (NEO_cw s) ! ((i + 1) mod 16) = NEO_bright s ! i" if "i < 16" for i
    using index_16 [OF that] unfolding NEO_cw_explicit [OF h b] by (auto simp: h b)
  have pccw: "NEO_hue (NEO_ccw s) ! i = NEO_hue s ! ((i + 1) mod 16)
      \<and> NEO_bright (NEO_ccw s) ! i = NEO_bright s ! ((i + 1) mod 16)" if "i < 16" for i
    using index_16 [OF that] unfolding NEO_ccw_explicit [OF h b] by (auto simp: h b)
  show ?thesis
    using cw ccw pcw pccw by blast
qed


text \<open>
  Claim C4, witness: a buffer of 16 different hues with brightness values that are not
  all equal, so that neither rotation leaves it unchanged; positions 15 and 3 for
  \<open>NEO_cw\<close>, positions 15 and 6 for \<open>NEO_ccw\<close>.
\<close>

theorem C4_rotation_witness:
  "(let m = power_on 0 0 0 0 0
       \<lparr>NEO_hue := [0, 12, 24, 36, 48, 60, 72, 84, 96, 108, 120, 132, 144, 156, 168, 180],
        NEO_bright := [0, 1, 2, 3, 4, 5, 6, 0, 1, 2, 3, 4, 5, 6, 0, 1]\<rparr>
    in length (NEO_hue m) = 16 \<and> length (NEO_bright m) = 16
       \<and> (NEO_cw ^^ 16) m = m \<and> (NEO_ccw ^^ 16) m = m
       \<and> NEO_hue (NEO_cw m) ! 0 = 180 \<and> NEO_bright (NEO_cw m) ! 0 = 1
       \<and> NEO_hue (NEO_cw m) ! 4 = 36 \<and> NEO_bright (NEO_cw m) ! 4 = 3
       \<and> NEO_hue (NEO_ccw m) ! 15 = 0 \<and> NEO_bright (NEO_ccw m) ! 15 = 0
       \<and> NEO_hue (NEO_ccw m) ! 6 = 84 \<and> NEO_bright (NEO_ccw m) ! 6 = 0)"
proof -
  define m where "m = power_on 0 0 0 0 0
       \<lparr>NEO_hue := [0, 12, 24, 36, 48, 60, 72, 84, 96, 108, 120, 132, 144, 156, 168, 180],
        NEO_bright := [0, 1, 2, 3, 4, 5, 6, 0, 1, 2, 3, 4, 5, 6, 0, 1]\<rparr>"
  have h: "NEO_hue m = [0, 12, 24, 36, 48, 60, 72, 84, 96, 108, 120, 132, 144, 156, 168, 180]"
    and b: "NEO_bright m = [0, 1, 2, 3, 4, 5, 6, 0, 1, 2, 3, 4, 5, 6, 0, 1]"
    by (simp_all add: m_def)
  have l: "length (NEO_hue m) = 16" "length (NEO_bright m) = 16"
    by (simp_all add: h b)
  note t = C4_rotation [OF l]
  from t have cw: "\<forall>i<16. NEO_hue (NEO_cw m) ! ((i + 1) mod 16) = NEO_hue m ! i
      \<and> NEO_bright (NEO_cw m) ! ((i + 1) mod 16) = NEO_bright m ! i"
    and ccw: "\<forall>i<16. NEO_hue (NEO_ccw m) ! i = NEO_hue m ! ((i + 1) mod 16)
      \<and> NEO_bright (NEO_ccw m) ! i = NEO_bright m ! ((i + 1) mod 16)"
    by blast+
  have "NEO_hue (NEO_cw m) ! 0 = 180 \<and> NEO_bright (NEO_cw m) ! 0 = 1"
    using cw [rule_format, of 15] by (simp add: h b)
  moreover have "NEO_hue (NEO_cw m) ! 4 = 36 \<and> NEO_bright (NEO_cw m) ! 4 = 3"
    using cw [rule_format, of 3] by (simp add: h b)
  moreover have "NEO_hue (NEO_ccw m) ! 15 = 0 \<and> NEO_bright (NEO_ccw m) ! 15 = 0"
    using ccw [rule_format, of 15] by (simp add: h b)
  moreover have "NEO_hue (NEO_ccw m) ! 6 = 84 \<and> NEO_bright (NEO_ccw m) ! 6 = 0"
    using ccw [rule_format, of 6] by (simp add: h b)
  moreover have "(NEO_cw ^^ 16) m = m" "(NEO_ccw ^^ 16) m = m"
    using t by blast+
  ultimately have "length (NEO_hue m) = 16 \<and> length (NEO_bright m) = 16
       \<and> (NEO_cw ^^ 16) m = m \<and> (NEO_ccw ^^ 16) m = m
       \<and> NEO_hue (NEO_cw m) ! 0 = 180 \<and> NEO_bright (NEO_cw m) ! 0 = 1
       \<and> NEO_hue (NEO_cw m) ! 4 = 36 \<and> NEO_bright (NEO_cw m) ! 4 = 3
       \<and> NEO_hue (NEO_ccw m) ! 15 = 0 \<and> NEO_bright (NEO_ccw m) ! 15 = 0
       \<and> NEO_hue (NEO_ccw m) ! 6 = 84 \<and> NEO_bright (NEO_ccw m) ! 6 = 0"
    using l by blast
  then show ?thesis
    unfolding Let_def m_def .
qed

text \<open>What one fade step does to one brightness value.\<close>

lemma fold_pointwise:
  "n \<le> length b \<Longrightarrow> fold (\<lambda>i b. b[i := f (b ! i)]) [0..<n] b = map f (take n b) @ drop n b"
proof (induction n)
  case 0
  show ?case by simp
next
  case (Suc n)
  then have n: "n < length b" by simp
  have "fold (\<lambda>i b. b[i := f (b ! i)]) [0..<Suc n] b
      = (map f (take n b) @ drop n b)[n := f ((map f (take n b) @ drop n b) ! n)]"
    using Suc by simp
  also have "(map f (take n b) @ drop n b) ! n = b ! n"
    using n by (simp add: nth_append)
  also have "(map f (take n b) @ drop n b)[n := f (b ! n)]
      = map f (take n b) @ (drop n b)[0 := f (b ! n)]"
    using n by (simp add: list_update_append)
  also have "(drop n b)[0 := f (b ! n)] = f (b ! n) # drop (Suc n) b"
    using n by (simp add: Cons_nth_drop_Suc [symmetric])
  also have "map f (take n b) @ f (b ! n) # drop (Suc n) b = map f (take (Suc n) b) @ drop (Suc n) b"
    using n by (simp add: take_Suc_conv_app_nth)
  finally show ?case .
qed

lemma fold_pointwise_all:
  "length b = 16 \<Longrightarrow> fold (\<lambda>i b. b[i := f (b ! i)]) [0..<16] b = map f b"
  using fold_pointwise [of 16 b f] by simp

lemma NEO_fadeIn_map:
  assumes "length (NEO_bright s) = 16"
  shows "NEO_fadeIn s = s\<lparr>NEO_bright := map (\<lambda>x. if x < 6 then x + 1 else x) (NEO_bright s)\<rparr>"
proof -
  define f where "f = (\<lambda>x :: u8. if x < 6 then x + 1 else x)"
  have e: "(\<lambda>i b. if b ! i < 6 then b[i := b ! i + 1] else b) = (\<lambda>i b. b[i := f (b ! i)])"
    by (intro ext) (simp add: f_def)
  have "fold (\<lambda>i b. b[i := f (b ! i)]) [0..<16] (NEO_bright s) = map f (NEO_bright s)"
    using assms by (rule fold_pointwise_all)
  then show ?thesis
    unfolding NEO_fadeIn_def e by (simp add: f_def)
qed

lemma NEO_fadeOut_map:
  assumes "length (NEO_bright s) = 16"
  shows "NEO_fadeOut s = s\<lparr>NEO_bright := map (\<lambda>x. if x \<noteq> 0 then x - 1 else x) (NEO_bright s)\<rparr>"
proof -
  define f where "f = (\<lambda>x :: u8. if x \<noteq> 0 then x - 1 else x)"
  have "(if b ! i \<noteq> 0 then b[i := b ! i - 1] else b) = b[i := f (b ! i)]"
    for i and b :: "u8 list"
  proof (cases "b ! i = 0")
    case True
    have "b[i := b ! i] = b" by (rule list_update_id)
    with True show ?thesis by (simp add: f_def)
  next
    case False
    then show ?thesis by (simp add: f_def)
  qed
  then have e: "(\<lambda>i b. if b ! i \<noteq> 0 then b[i := b ! i - 1] else b) = (\<lambda>i b. b[i := f (b ! i)])"
    by (intro ext)
  have "fold (\<lambda>i b. b[i := f (b ! i)]) [0..<16] (NEO_bright s) = map f (NEO_bright s)"
    using assms by (rule fold_pointwise_all)
  then show ?thesis
    unfolding NEO_fadeOut_def e by (simp add: f_def)
qed

lemma NEO_fill_replicate:
  assumes "length (NEO_hue s) = 16"
  shows "NEO_fill hue s = s\<lparr>NEO_hue := replicate 16 hue\<rparr>"
proof -
  have "fold (\<lambda>i h. h[i := hue]) [0..<16] (NEO_hue s) = map (\<lambda>_. hue) (NEO_hue s)"
    using fold_pointwise_all [OF assms, of "\<lambda>_. hue"] by simp
  also have "\<dots> = replicate 16 hue"
    using assms by (simp add: map_replicate_const)
  finally show ?thesis
    by (simp add: NEO_fill_def)
qed

lemma NEO_fadeIn_funpow:
  assumes "length (NEO_bright s) = 16"
  shows "(NEO_fadeIn ^^ k) s
    = s\<lparr>NEO_bright := map ((\<lambda>x. if x < 6 then x + 1 else x) ^^ k) (NEO_bright s)\<rparr>"
proof (induction k)
  case 0
  show ?case by simp
next
  case (Suc k)
  show ?case
    by (simp add: Suc NEO_fadeIn_map assms)
qed

lemma NEO_fadeOut_funpow:
  assumes "length (NEO_bright s) = 16"
  shows "(NEO_fadeOut ^^ k) s
    = s\<lparr>NEO_bright := map ((\<lambda>x. if x \<noteq> 0 then x - 1 else x) ^^ k) (NEO_bright s)\<rparr>"
proof (induction k)
  case 0
  show ?case by simp
next
  case (Suc k)
  show ?case
    by (simp add: Suc NEO_fadeOut_map assms)
qed

lemma funpow_6: "(f ^^ 6) x = f (f (f (f (f (f x)))))"
  by (simp add: eval_nat_numeral funpow_swap1)

lemma funpow_7: "(f ^^ 7) x = f (f (f (f (f (f (f x))))))"
  by (simp add: eval_nat_numeral funpow_swap1)

lemma fade_in_values:
  "((\<lambda>x :: u8. if x < 6 then x + 1 else x) ^^ 6) 0 = 6"
  "((\<lambda>x :: u8. if x < 6 then x + 1 else x) ^^ 7) 0 = 6"
  by (simp_all add: funpow_6 funpow_7)

lemma fade_out_values:
  "((\<lambda>x :: u8. if x \<noteq> 0 then x - 1 else x) ^^ 6) 6 = 0"
  "((\<lambda>x :: u8. if x \<noteq> 0 then x - 1 else x) ^^ 7) 6 = 0"
  by (simp_all add: funpow_6 funpow_7)

text \<open>
  Claim C6: at every position i of a 16-entry buffer, from brightness 0 six calls of
  \<open>NEO_fadeIn\<close> give brightness 6 and a seventh leaves 6; from brightness 6
  six calls of \<open>NEO_fadeOut\<close> give 0 and a seventh leaves 0;
  \<open>NEO_fadeIn\<close> does nothing at 6 and \<open>NEO_fadeOut\<close> nothing at
  0.
\<close>

theorem C6_fade_limits:
  assumes "length (NEO_bright s) = 16" "i < 16"
  shows "(NEO_bright s ! i = 0 \<longrightarrow>
            NEO_bright ((NEO_fadeIn ^^ 6) s) ! i = 6 \<and> NEO_bright ((NEO_fadeIn ^^ 7) s) ! i = 6)
     \<and> (NEO_bright s ! i = 6 \<longrightarrow>
            NEO_bright ((NEO_fadeOut ^^ 6) s) ! i = 0 \<and> NEO_bright ((NEO_fadeOut ^^ 7) s) ! i = 0)
     \<and> (NEO_bright s ! i = 6 \<longrightarrow> NEO_bright (NEO_fadeIn s) ! i = 6)
     \<and> (NEO_bright s ! i = 0 \<longrightarrow> NEO_bright (NEO_fadeOut s) ! i = 0)"
  using assms
  by (simp add: NEO_fadeIn_funpow NEO_fadeOut_funpow NEO_fadeIn_map NEO_fadeOut_map
      fade_in_values fade_out_values)

text \<open>
  Claim C6, witness: position 3 of the machine at power-on, where the brightness is 0.
\<close>

theorem C6_fade_limits_witness:
  "length (NEO_bright (power_on 0 0 0 0 0)) = 16 \<and> (3 :: nat) < 16
   \<and> NEO_bright (power_on 0 0 0 0 0) ! 3 = 0
   \<and> NEO_bright ((NEO_fadeIn ^^ 6) (power_on 0 0 0 0 0)) ! 3 = 6
   \<and> NEO_bright ((NEO_fadeIn ^^ 7) (power_on 0 0 0 0 0)) ! 3 = 6
   \<and> NEO_bright (NEO_fadeOut (power_on 0 0 0 0 0)) ! 3 = 0"
proof -
  have l: "length (NEO_bright (power_on 0 0 0 0 0)) = 16" and i: "(3 :: nat) < 16"
    and z: "NEO_bright (power_on 0 0 0 0 0) ! 3 = 0"
    by (simp_all add: power_on_def eval_nat_numeral)
  show ?thesis
    using C6_fade_limits [OF l i] l i z by blast
qed

section \<open>Frames\<close>

lemma for_each_append:
  assumes "\<forall>i\<in>set is. \<exists>bs. g i = Some bs"
  shows "for_each is (\<lambda>i w. do { bytes \<leftarrow> g i; Some (w @ bytes) }) acc
    = Some (acc @ concat (map (\<lambda>i. the (g i)) is))"
  using assms
proof (induction "is" arbitrary: acc)
  case Nil
  show ?case by simp
next
  case (Cons i "is")
  then obtain bs where "g i = Some bs" by auto
  with Cons show ?case by simp
qed

lemma show_pixel_in_buffer:
  assumes "length (NEO_bright s) = 16" "\<forall>b\<in>set (NEO_bright s). unat b \<le> 6" "i < 16"
  shows "\<exists>bytes. show_pixel (NEO_hue s ! i) (NEO_bright s ! i) = Some bytes
    \<and> length bytes = (if unat (NEO_hue s ! i) < 192 then 3 else 0)"
proof -
  have "NEO_bright s ! i \<in> set (NEO_bright s)"
    using assms(1,3) by simp
  then have "unat (NEO_bright s ! i) \<le> 6"
    using assms(2) by blast
  then show ?thesis
    by (rule show_pixel_defined)
qed

lemma NEO_show_frame:
  assumes "length (NEO_bright s) = 16" "\<forall>b\<in>set (NEO_bright s). unat b \<le> 6"
  shows "NEO_show s = Some (s\<lparr>wire :=
    concat (map (\<lambda>i. the (show_pixel (NEO_hue s ! i) (NEO_bright s ! i))) [0..<16])\<rparr>)"
proof -
  have "\<exists>bs. show_pixel (NEO_hue s ! i) (NEO_bright s ! i) = Some bs"
    if "i \<in> set [0..<16]" for i
  proof -
    from that have "i < 16" by simp
    from show_pixel_in_buffer [OF assms this] show ?thesis by blast
  qed
  then have "\<forall>i\<in>set [0..<16]. \<exists>bs. show_pixel (NEO_hue s ! i) (NEO_bright s ! i) = Some bs"
    by blast
  then show ?thesis
    unfolding NEO_show_def by (subst for_each_append) simp_all
qed

lemma frame_prefix_length:
  assumes "length (NEO_hue s) = 16" "length (NEO_bright s) = 16"
    "\<forall>b\<in>set (NEO_bright s). unat b \<le> 6" "j \<le> 16"
  shows "length (concat (map (\<lambda>i. the (show_pixel (NEO_hue s ! i) (NEO_bright s ! i))) [0..<j]))
    = 3 * length (filter (\<lambda>h. unat h < 192) (take j (NEO_hue s)))"
  using assms(4)
proof (induction j)
  case 0
  show ?case by simp
next
  case (Suc j)
  then have j: "j < 16" by simp
  obtain bytes where "show_pixel (NEO_hue s ! j) (NEO_bright s ! j) = Some bytes"
    "length bytes = (if unat (NEO_hue s ! j) < 192 then 3 else 0)"
    using show_pixel_in_buffer [OF assms(2,3) j] by blast
  moreover have "take (Suc j) (NEO_hue s) = take j (NEO_hue s) @ [NEO_hue s ! j]"
    using j assms(1) by (simp add: take_Suc_conv_app_nth)
  ultimately show ?case
    using Suc by simp
qed

text \<open>
  Claim C10: \<open>NEO_writeHue\<close> sends 3 bytes for a hue below 192 and none for
  a hue from 192 on, and so does one pixel of \<open>NEO_show\<close> at any brightness
  in 0..6; the frame of \<open>NEO_show\<close> therefore has 3 bytes per in-domain hue
  only, and the bytes of pixel j start at 3 times the number of in-domain hues before j:
  an out-of-domain hue shortens the frame and shifts every later pixel.
\<close>

theorem C10_out_of_domain_hue:
  assumes "length (NEO_hue s) = 16" "length (NEO_bright s) = 16"
    "\<forall>b\<in>set (NEO_bright s). unat b \<le> 6"
  shows "(unat hue < 192 \<longrightarrow> length (NEO_writeHue hue) = 3)
     \<and> (192 \<le> unat hue \<longrightarrow> NEO_writeHue hue = [])
     \<and> (unat bright \<le> 6 \<longrightarrow>
          (\<exists>bytes. show_pixel hue bright = Some bytes
             \<and> length bytes = (if unat hue < 192 then 3 else 0)))
     \<and> (\<exists>s'. NEO_show s = Some s'
          \<and> length (wire s') = 3 * length (filter (\<lambda>h. unat h < 192) (NEO_hue s))
          \<and> (\<forall>j<16. \<exists>bytes. show_pixel (NEO_hue s ! j) (NEO_bright s ! j) = Some bytes
                \<and> take (length bytes)
                     (drop (3 * length (filter (\<lambda>h. unat h < 192) (take j (NEO_hue s))))
                        (wire s')) = bytes))"
proof (intro conjI impI)
  show "length (NEO_writeHue hue) = 3" if "unat hue < 192"
    using that by (simp add: NEO_writeHue_length)
  show "NEO_writeHue hue = []" if "192 \<le> unat hue"
    using that NEO_writeHue_length [of hue] by simp
  show "\<exists>bytes. show_pixel hue bright = Some bytes \<and> length bytes = (if unat hue < 192 then 3 else 0)"
    if "unat bright \<le> 6"
    using that by (rule show_pixel_defined)
  let ?pb = "\<lambda>i. the (show_pixel (NEO_hue s ! i) (NEO_bright s ! i))"
  let ?frame = "concat (map ?pb [0..<16])"
  have fr: "NEO_show s = Some (s\<lparr>wire := ?frame\<rparr>)"
    using assms(2,3) by (rule NEO_show_frame)
  have len: "length ?frame = 3 * length (filter (\<lambda>h. unat h < 192) (NEO_hue s))"
    using frame_prefix_length [OF assms, of 16] assms(1) by simp
  have off: "\<exists>bytes. show_pixel (NEO_hue s ! j) (NEO_bright s ! j) = Some bytes
      \<and> take (length bytes)
           (drop (3 * length (filter (\<lambda>h. unat h < 192) (take j (NEO_hue s)))) ?frame) = bytes"
    if j: "j < 16" for j
  proof -
    obtain bytes where b: "show_pixel (NEO_hue s ! j) (NEO_bright s ! j) = Some bytes"
      using show_pixel_in_buffer [OF assms(2,3) j] by blast
    have "[0..<16] = [0..<j] @ j # [Suc j..<16]"
      using j upt_add_eq_append [of 0 j "16 - j"] by (simp add: upt_conv_Cons)
    then have "?frame = concat (map ?pb [0..<j]) @ bytes @ concat (map ?pb [Suc j..<16])"
      using b by simp
    moreover have "length (concat (map ?pb [0..<j]))
        = 3 * length (filter (\<lambda>h. unat h < 192) (take j (NEO_hue s)))"
      using frame_prefix_length [OF assms, of j] j by simp
    ultimately have "take (length bytes)
        (drop (3 * length (filter (\<lambda>h. unat h < 192) (take j (NEO_hue s)))) ?frame) = bytes"
      by simp
    with b show ?thesis by blast
  qed
  show "\<exists>s'. NEO_show s = Some s'
      \<and> length (wire s') = 3 * length (filter (\<lambda>h. unat h < 192) (NEO_hue s))
      \<and> (\<forall>j<16. \<exists>bytes. show_pixel (NEO_hue s ! j) (NEO_bright s ! j) = Some bytes
            \<and> take (length bytes)
                 (drop (3 * length (filter (\<lambda>h. unat h < 192) (take j (NEO_hue s))))
                    (wire s')) = bytes)"
    using fr len off by simp
qed


text \<open>
  Claim C10, witness: hue 200 at position 0, the other hues 0; the frame has 45 bytes.
\<close>

theorem C10_out_of_domain_hue_witness:
  "length (NEO_hue (power_on 0 0 0 0 0\<lparr>NEO_hue := [200, 0, 0, 0, 0, 0, 0, 0, 0, 0, 0, 0, 0, 0, 0, 0]\<rparr>)) = 16
   \<and> length (NEO_bright (power_on 0 0 0 0 0)) = 16
   \<and> set (NEO_bright (power_on 0 0 0 0 0)) = {0} \<and> unat (0 :: u8) \<le> 6
   \<and> 192 \<le> unat (200 :: u8) \<and> unat (6 :: u8) \<le> 6
   \<and> NEO_writeHue 200 = [] \<and> show_pixel 200 6 = Some []
   \<and> map_option (\<lambda>s'. length (wire s'))
        (NEO_show (power_on 0 0 0 0 0\<lparr>NEO_hue := [200, 0, 0, 0, 0, 0, 0, 0, 0, 0, 0, 0, 0, 0, 0, 0]\<rparr>))
      = Some 45"
proof -
  let ?m = "power_on 0 0 0 0 0\<lparr>NEO_hue := [200, 0, 0, 0, 0, 0, 0, 0, 0, 0, 0, 0, 0, 0, 0, 0]\<rparr>"
  have l: "length (NEO_hue ?m) = 16" "length (NEO_bright ?m) = 16"
    "\<forall>b\<in>set (NEO_bright ?m). unat b \<le> 6"
    by (simp_all add: power_on_def)
  have h: "192 \<le> unat (200 :: u8)" and b: "unat (6 :: u8) \<le> 6"
    by simp_all
  note t = C10_out_of_domain_hue [OF l, of 200 6]
  from t h have w: "NEO_writeHue 200 = []"
    by blast
  from t b obtain bytes where "show_pixel 200 6 = Some bytes"
    "length bytes = (if unat (200 :: u8) < 192 then 3 else 0)"
    by blast
  then have p: "show_pixel 200 6 = Some []"
    by simp
  from t obtain s' where "NEO_show ?m = Some s'"
    "length (wire s') = 3 * length (filter (\<lambda>h. unat h < 192) (NEO_hue ?m))"
    by blast
  then have "map_option (\<lambda>s'. length (wire s')) (NEO_show ?m) = Some 45"
    by simp
  with l h b w p show ?thesis
    by (simp add: power_on_def)
qed

section \<open>The spin of the Wheel of Fortune\<close>

lemma rendered_append: "rendered (xs @ ys) = rendered xs @ rendered ys"
  by (induction xs rule: rendered.induct) simp_all

lemma trajectory_Cons:
  "(f a, g b) # map (\<lambda>k. ((f ^^ Suc k) (f a), (g ^^ Suc k) (g b))) [0..<n]
   = map (\<lambda>k. ((f ^^ Suc k) a, (g ^^ Suc k) b)) [0..<Suc n]"
proof -
  have "[0..<Suc n] = 0 # map Suc [0..<n]"
    by (simp only: map_Suc_upt upt_conv_Cons [OF zero_less_Suc])
  then show ?thesis
    by (simp add: funpow_swap1 del: upt_Suc)
qed

declare speed_up.simps [simp del] slow_down.simps [simp del]

lemma speed_up_trajectory:
  "speed_up speed number hue = (evs, final) \<Longrightarrow>
     rendered evs = map (\<lambda>k. ((next_number ^^ Suc k) number, (next_hue ^^ Suc k) hue)) [0..<unat (speed - 1)]
     \<and> final = (0, (next_number ^^ unat (speed - 1)) number, (next_hue ^^ unat (speed - 1)) hue)"
proof (induction speed number hue arbitrary: evs final rule: speed_up.induct)
  case (1 speed number hue)
  show ?case
  proof (cases "speed - 1 = 0")
    case True
    with "1.prems" show ?thesis
      by (simp add: speed_up.simps [of speed number hue])
  next
    case False
    obtain evs' final' where r: "speed_up (speed - 1) (next_number number) (next_hue hue) = (evs', final')"
      by (cases "speed_up (speed - 1) (next_number number) (next_hue hue)") auto
    have ih: "rendered evs' = map (\<lambda>k. ((next_number ^^ Suc k) (next_number number), (next_hue ^^ Suc k) (next_hue hue)))
          [0..<unat (speed - 1 - 1)]
       \<and> final' = (0, (next_number ^^ unat (speed - 1 - 1)) (next_number number),
            (next_hue ^^ unat (speed - 1 - 1)) (next_hue hue))"
      using "1.IH" [OF refl False refl refl r] .
    have n: "unat (speed - 1) = Suc (unat (speed - 1 - 1))"
      using False unat_minus_one [of "speed - 1"] unat_gt_0 [of "speed - 1"] by simp
    have e: "evs = SetPixel (next_number number) (next_hue hue) # DelayMs (speed - 1) # evs'"
      and f: "final = final'"
      using "1.prems" False r by (simp_all add: speed_up.simps [of speed number hue] Let_def)
    have "rendered evs = (next_number number, next_hue hue) # rendered evs'"
      by (simp add: e)
    also have "\<dots> = map (\<lambda>k. ((next_number ^^ Suc k) number, (next_hue ^^ Suc k) hue)) [0..<unat (speed - 1)]"
      unfolding n using ih trajectory_Cons [of next_number number next_hue hue "unat (speed - 1 - 1)"]
      by (simp only:)
    finally have "rendered evs = map (\<lambda>k. ((next_number ^^ Suc k) number, (next_hue ^^ Suc k) hue)) [0..<unat (speed - 1)]" .
    moreover have "final = (0, (next_number ^^ unat (speed - 1)) number, (next_hue ^^ unat (speed - 1)) hue)"
      unfolding n f using ih by (simp add: funpow_swap1)
    ultimately show ?thesis by simp
  qed
qed

lemma slow_down_trajectory:
  "speed \<le> 95 \<Longrightarrow> slow_down speed number hue = (evs, final) \<Longrightarrow>
     rendered evs = map (\<lambda>k. ((next_number ^^ Suc k) number, (next_hue ^^ Suc k) hue)) [0..<95 - unat speed]
     \<and> final = (96, (next_number ^^ (95 - unat speed)) number, (next_hue ^^ (95 - unat speed)) hue)"
proof (induction speed number hue arbitrary: evs final rule: slow_down.induct)
  case (1 speed number hue)
  have le: "unat speed \<le> 95"
    using "1.prems"(1) by (simp add: word_le_nat_alt)
  then have u: "unat (speed + 1) = Suc (unat speed)"
    by (simp add: unat_word_ariths)
  show ?case
  proof (cases "speed + 1 < 96")
    case False
    then have "unat speed = 95"
      using le u by (simp add: word_less_nat_alt)
    moreover have "speed + 1 = 96"
      using calculation u word_unat_eq_iff [of "speed + 1" 96] by simp
    moreover have "slow_down speed number hue = ([], speed + 1, number, hue)"
      using False by (subst slow_down.simps) (simp add: Let_def)
    ultimately show ?thesis
      using "1.prems"(2) by simp
  next
    case True
    then have lt: "unat speed < 95"
      using u by (simp add: word_less_nat_alt)
    have le': "speed + 1 \<le> 95"
      using lt u by (simp add: word_le_nat_alt)
    obtain evs' final' where r: "slow_down (speed + 1) (next_number number) (next_hue hue) = (evs', final')"
      by (cases "slow_down (speed + 1) (next_number number) (next_hue hue)") auto
    have ih: "rendered evs' = map (\<lambda>k. ((next_number ^^ Suc k) (next_number number), (next_hue ^^ Suc k) (next_hue hue)))
          [0..<95 - unat (speed + 1)]
       \<and> final' = (96, (next_number ^^ (95 - unat (speed + 1))) (next_number number),
            (next_hue ^^ (95 - unat (speed + 1))) (next_hue hue))"
      using "1.IH" [OF refl True refl refl le' r] .
    have n: "95 - unat speed = Suc (95 - unat (speed + 1))"
      using lt u by simp
    have e: "evs = SetPixel (next_number number) (next_hue hue) # DelayMs (speed + 1) # evs'"
      and f: "final = final'"
      using "1.prems"(2) True r by (simp_all add: slow_down.simps [of speed number hue] Let_def)
    have "rendered evs = (next_number number, next_hue hue) # rendered evs'"
      by (simp add: e)
    also have "\<dots> = map (\<lambda>k. ((next_number ^^ Suc k) number, (next_hue ^^ Suc k) hue)) [0..<95 - unat speed]"
      unfolding n using ih trajectory_Cons [of next_number number next_hue hue "95 - unat (speed + 1)"]
      by (simp only:)
    finally have "rendered evs = map (\<lambda>k. ((next_number ^^ Suc k) number, (next_hue ^^ Suc k) hue)) [0..<95 - unat speed]" .
    moreover have "final = (96, (next_number ^^ (95 - unat speed)) number, (next_hue ^^ (95 - unat speed)) hue)"
      unfolding n f using ih by (simp add: funpow_swap1)
    ultimately show ?thesis by simp
  qed
qed


lemma trajectory_append:
  "map (\<lambda>k. ((f ^^ Suc k) a, (g ^^ Suc k) b)) [0..<n]
     @ map (\<lambda>k. ((f ^^ Suc k) ((f ^^ n) a), (g ^^ Suc k) ((g ^^ n) b))) [0..<m]
   = map (\<lambda>k. ((f ^^ Suc k) a, (g ^^ Suc k) b)) [0..<n + m]"
proof -
  let ?F = "\<lambda>k. ((f ^^ Suc k) a, (g ^^ Suc k) b)"
  have "(f ^^ Suc (k + n)) a = (f ^^ Suc k) ((f ^^ n) a)"
    and "(g ^^ Suc (k + n)) b = (g ^^ Suc k) ((g ^^ n) b)" for k
    by (simp_all only: add_Suc [symmetric] funpow_add comp_apply)
  then have G: "(\<lambda>k. ((f ^^ Suc k) ((f ^^ n) a), (g ^^ Suc k) ((g ^^ n) b))) = (\<lambda>k. ?F (k + n))"
    by (simp only:)
  have "[n..<n + m] = map (\<lambda>k. k + n) [0..<m]"
    by (simp only: map_add_upt add.commute [of m n])
  then have "map ?F [n..<n + m] = map (\<lambda>k. ?F (k + n)) [0..<m]"
    by (simp only: map_map comp_def)
  moreover have "map ?F [0..<n + m] = map ?F [0..<n] @ map ?F [n..<n + m]"
    by (simp only: upt_add_eq_append [OF le0] map_append)
  ultimately show ?thesis
    by (simp only: G)
qed

lemma spin_trajectory:
  "rendered (fst (spin speed number hue))
   = map (\<lambda>k. ((next_number ^^ Suc k) number, (next_hue ^^ Suc k) hue)) [0..<unat (speed - 1) + 95]"
proof -
  obtain evs1 final1 where u: "speed_up speed number hue = (evs1, final1)"
    by (cases "speed_up speed number hue") auto
  note a = speed_up_trajectory [OF u]
  let ?n = "unat (speed - 1)"
  obtain evs2 final2
    where d: "slow_down 0 ((next_number ^^ ?n) number) ((next_hue ^^ ?n) hue) = (evs2, final2)"
    by (cases "slow_down 0 ((next_number ^^ ?n) number) ((next_hue ^^ ?n) hue)") auto
  have "(0 :: u8) \<le> 95" by simp
  note b = slow_down_trajectory [OF this d]
  have "fst (spin speed number hue) = evs1 @ evs2"
    using u a d by (simp add: spin_def split: prod.splits)
  then have "rendered (fst (spin speed number hue)) = rendered evs1 @ rendered evs2"
    by (simp add: rendered_append)
  also have "\<dots> = map (\<lambda>k. ((next_number ^^ Suc k) number, (next_hue ^^ Suc k) hue)) [0..<?n + 95]"
    using a b trajectory_append [of next_number number next_hue hue ?n 95]
    by (simp del: upt_Suc funpow.simps)
  finally show ?thesis .
qed

text \<open>
  Claim C8: the (position, hue) pairs rendered by one spin are a function of the
  starting speed, position and hue: the k-th pair is the k-fold step of the position and
  of the hue, for unat (speed - 1) + 95 steps; two button presses whose timer readings
  give the same starting speed render the same pairs.
\<close>

theorem C8_spin_deterministic:
  "rendered (fst (spin speed number hue))
     = map (\<lambda>k. ((next_number ^^ Suc k) number, (next_hue ^^ Suc k) hue)) [0..<unat (speed - 1) + 95]
   \<and> (16 + (tcnt0 AND 15) = 16 + (tcnt0' AND 15) \<longrightarrow>
        rendered (fst (button_pressed tcnt0 number hue))
          = rendered (fst (button_pressed tcnt0' number hue)))"
proof (intro conjI impI)
  show "rendered (fst (spin speed number hue))
      = map (\<lambda>k. ((next_number ^^ Suc k) number, (next_hue ^^ Suc k) hue)) [0..<unat (speed - 1) + 95]"
    by (rule spin_trajectory)
  assume "16 + (tcnt0 AND 15) = 16 + (tcnt0' AND 15)"
  then show "rendered (fst (button_pressed tcnt0 number hue))
      = rendered (fst (button_pressed tcnt0' number hue))"
    by (simp only: button_pressed_def)
qed

text \<open>
  Claim C8, witness: timer readings 0x13 and 0x23, both giving speed 19, from position 0
  and hue 0.
\<close>

theorem C8_spin_deterministic_witness:
  "16 + (0x13 AND 15) = 16 + (0x23 AND 15 :: u8)
   \<and> rendered (fst (button_pressed 0x13 0 0)) = rendered (fst (button_pressed 0x23 0 0))
   \<and> length (rendered (fst (spin 19 0 0))) = 113"
proof -
  have e: "16 + (0x13 AND 15) = 16 + (0x23 AND 15 :: u8)"
    by simp
  note t = C8_spin_deterministic [of 19 0 0 "0x13" "0x23"]
  from t e have "rendered (fst (button_pressed 0x13 0 0)) = rendered (fst (button_pressed 0x23 0 0))"
    by blast
  moreover from t have "rendered (fst (spin 19 0 0))
      = map (\<lambda>k. ((next_number ^^ Suc k) 0, (next_hue ^^ Suc k) 0)) [0..<unat (19 - 1 :: u8) + 95]"
    by (rule conjunct1)
  then have "length (rendered (fst (spin 19 0 0))) = unat (19 - 1 :: u8) + 95"
    by (simp only: length_map length_upt diff_zero)
  then have "length (rendered (fst (spin 19 0 0))) = 113"
    by simp
  ultimately show ?thesis
    using e by (simp only: simp_thms)
qed

section \<open>The main loop of the ambient sketch\<close>

subsection \<open>Word facts\<close>

lemma wrap192_less: "unat (wrap192 h) < 192"
proof (cases "h > 191")
  case True
  then have le: "192 \<le> h"
    by (simp add: word_less_nat_alt word_le_nat_alt)
  have "unat (h - 192) = unat h - 192"
    using unat_sub [OF le] by simp
  then show ?thesis
    using True unat_u8_less [of h] by (simp add: wrap192_def)
next
  case False
  then show ?thesis
    by (simp add: wrap192_def word_less_nat_alt)
qed

lemma low_nibble_less: "unat (x AND 0x0F :: u8) < 16"
proof -
  have "x AND 0x0F \<le> 0x0F" by (rule word_and_le1)
  then show ?thesis by (simp add: word_le_nat_alt)
qed

lemma ucast_small:
  fixes v :: u16
  assumes "unat v < 256"
  shows "unat (ucast v :: u8) = unat v"
proof -
  have "unat (ucast v :: u8) = take_bit 8 (unat v)"
    by (simp only: unsigned_ucast_eq) simp
  also have "\<dots> = unat v"
    using assms by (simp add: take_bit_nat_eq_self_iff)
  finally show ?thesis .
qed

lemma of_nat_index: "i < 16 \<Longrightarrow> unat (of_nat i :: u8) = i"
  by (simp add: unat_of_nat)

subsection \<open>What each operation keeps\<close>

lemma prng_ok:
  assumes "maxvalue \<noteq> 0"
  shows "\<exists>v r. prng maxvalue s = Some (v, s\<lparr>rn := r\<rparr>) \<and> unat v < unat maxvalue"
proof -
  have "0 < unat maxvalue"
    using assms by (simp add: unat_gt_0)
  then have "unat (lfsr (rn s) mod maxvalue) < unat maxvalue"
    by (simp add: unat_mod)
  then show ?thesis
    using prng_eq [OF assms, of s] by blast
qed

lemma buffer_ok_rn [simp]: "buffer_ok (s\<lparr>rn := r\<rparr>) = buffer_ok s"
  and buffer_ok_wire [simp]: "buffer_ok (s\<lparr>wire := w\<rparr>) = buffer_ok s"
  and buffer_ok_counter [simp]: "buffer_ok (s\<lparr>counter := c\<rparr>) = buffer_ok s"
  and buffer_ok_state [simp]: "buffer_ok (s\<lparr>state := st\<rparr>) = buffer_ok s"
  and buffer_ok_hue1 [simp]: "buffer_ok (s\<lparr>hue1 := h\<rparr>) = buffer_ok s"
  and buffer_ok_hue2 [simp]: "buffer_ok (s\<lparr>hue2 := h\<rparr>) = buffer_ok s"
  and buffer_ok_ptr1 [simp]: "buffer_ok (s\<lparr>ptr1 := p\<rparr>) = buffer_ok s"
  and buffer_ok_ptr2 [simp]: "buffer_ok (s\<lparr>ptr2 := p\<rparr>) = buffer_ok s"
  by (simp_all add: buffer_ok_def)

lemma ctl_of_rn [simp]: "ctl_of (s\<lparr>rn := r\<rparr>) = ctl_of s"
  and ctl_of_wire [simp]: "ctl_of (s\<lparr>wire := w\<rparr>) = ctl_of s"
  and ctl_of_NEO_hue [simp]: "ctl_of (s\<lparr>NEO_hue := hs\<rparr>) = ctl_of s"
  and ctl_of_NEO_bright [simp]: "ctl_of (s\<lparr>NEO_bright := bs\<rparr>) = ctl_of s"
  by (simp_all add: ctl_of_def)

lemma NEO_show_ok:
  assumes "buffer_ok s"
  shows "\<exists>w. NEO_show s = Some (s\<lparr>wire := w\<rparr>)"
proof -
  have "length (NEO_bright s) = 16" "\<forall>b\<in>set (NEO_bright s). unat b \<le> 6"
    using assms by (simp_all add: buffer_ok_def)
  then show ?thesis
    using NEO_show_frame [of s] by blast
qed

lemma NEO_set_ok:
  assumes "buffer_ok s" "unat number < 16" "unat hue < 192"
  shows "\<exists>s'. NEO_set number hue s = Some s' \<and> buffer_ok s' \<and> ctl_of s' = ctl_of s"
proof -
  have "set ((NEO_bright s)[unat number := 6]) \<subseteq> insert 6 (set (NEO_bright s))"
    and "set ((NEO_hue s)[unat number := hue]) \<subseteq> insert hue (set (NEO_hue s))"
    by (rule set_update_subset_insert)+
  then have "buffer_ok (s\<lparr>NEO_bright := (NEO_bright s)[unat number := 6],
                          NEO_hue := (NEO_hue s)[unat number := hue]\<rparr>)"
    using assms(1,3) by (auto simp: buffer_ok_def)
  then show ?thesis
    using assms(2) by (simp add: NEO_set_def)
qed

lemma NEO_fadeOut_ok:
  assumes "buffer_ok s"
  shows "buffer_ok (NEO_fadeOut s) \<and> ctl_of (NEO_fadeOut s) = ctl_of s"
proof -
  have l: "length (NEO_bright s) = 16"
    using assms by (simp add: buffer_ok_def)
  have "unat (x - 1) \<le> 6" if "unat x \<le> 6" "x \<noteq> 0" for x :: u8
    using that unat_minus_one [of x] by simp
  then show ?thesis
    using assms unfolding NEO_fadeOut_map [OF l] by (auto simp: buffer_ok_def)
qed

lemma NEO_cw_ok:
  assumes "buffer_ok s"
  shows "buffer_ok (NEO_cw s) \<and> ctl_of (NEO_cw s) = ctl_of s"
proof -
  have l: "length (NEO_hue s) = 16" "length (NEO_bright s) = 16"
    using assms by (simp_all add: buffer_ok_def)
  then have ne: "NEO_hue s \<noteq> []" "NEO_bright s \<noteq> []"
    by auto
  have "set (butlast xs) \<subseteq> set xs" for xs :: "u8 list"
    by (auto dest: in_set_butlastD)
  then show ?thesis
    using assms ne unfolding NEO_cw_closed [OF l] by (auto simp: buffer_ok_def dest: in_set_butlastD)
qed

lemma NEO_fill_ok:
  assumes "buffer_ok s" "unat hue < 192"
  shows "buffer_ok (NEO_fill hue s) \<and> ctl_of (NEO_fill hue s) = ctl_of s"
proof -
  have l: "length (NEO_hue s) = 16"
    using assms by (simp add: buffer_ok_def)
  show ?thesis
    using assms unfolding NEO_fill_replicate [OF l] by (simp add: buffer_ok_def)
qed

lemma for_each_rule:
  assumes "P 0 s"
    and "\<And>k t. k < length is \<Longrightarrow> P k t \<Longrightarrow> \<exists>t'. body (is ! k) t = Some t' \<and> P (Suc k) t'"
  shows "\<exists>t. for_each is body s = Some t \<and> P (length is) t"
  using assms
proof (induction "is" arbitrary: P s)
  case Nil
  then show ?case by simp
next
  case (Cons i "is")
  from Cons.prems(2) [of 0 s] Cons.prems(1)
  obtain t' where t': "body i s = Some t'" "P (Suc 0) t'"
    by auto
  have "\<exists>t. for_each is body t' = Some t \<and> P (Suc (length is)) t"
  proof (rule Cons.IH [of "\<lambda>k. P (Suc k)"])
    show "P (Suc 0) t'" by (rule t'(2))
    show "\<exists>u. body (is ! k) t = Some u \<and> P (Suc (Suc k)) u" if "k < length is" "P (Suc k) t" for k t
      using Cons.prems(2) [of "Suc k" t] that by simp
  qed
  then show ?case
    using t'(1) by simp
qed

subsection \<open>The animation step, state by state\<close>

lemma NEO_fadeOut_fields [simp]:
  "state (NEO_fadeOut s) = state s" "counter (NEO_fadeOut s) = counter s"
  "hue1 (NEO_fadeOut s) = hue1 s" "hue2 (NEO_fadeOut s) = hue2 s"
  "ptr1 (NEO_fadeOut s) = ptr1 s" "ptr2 (NEO_fadeOut s) = ptr2 s"
  by (simp_all add: NEO_fadeOut_def)

lemma animate_0:
  assumes "buffer_ok s" "state s = 0"
  shows "\<exists>s'. animate rtl s = Some s' \<and> buffer_ok s' \<and> ctl_of s' = animate_ctl (ctl_of s)"
  using assms by (simp add: animate_def ctl_of_def animate_ctl_def)

lemma animate_1:
  assumes "buffer_ok s" "state s = 1"
  shows "\<exists>s'. animate rtl s = Some s' \<and> buffer_ok s' \<and> ctl_of s' = animate_ctl (ctl_of s)"
proof -
  define t where "t = (NEO_fadeOut s)\<lparr>hue1 := wrap192 (hue1 s + 4), hue2 := wrap192 (hue2 s + 4),
    ptr1 := (ptr1 s + 1) AND 0x0F, ptr2 := (ptr2 s + 1) AND 0x0F\<rparr>"
  have a: "animate rtl s
      = do { u \<leftarrow> NEO_set (ptr1 t) (hue1 t) t; v \<leftarrow> NEO_set (ptr2 u) (hue2 u) u; NEO_show v }"
    using assms(2) by (simp add: animate_def Let_def t_def)
  have bt: "buffer_ok t"
    using NEO_fadeOut_ok [OF assms(1)] by (simp add: t_def)
  have ct: "ctl_of t = animate_ctl (ctl_of s)"
    using assms(2) by (simp add: t_def ctl_of_def animate_ctl_def)
  have "unat (ptr1 t) < 16" "unat (hue1 t) < 192"
    by (simp_all add: t_def low_nibble_less wrap192_less)
  from NEO_set_ok [OF bt this]
  obtain u where u: "NEO_set (ptr1 t) (hue1 t) t = Some u" "buffer_ok u" "ctl_of u = ctl_of t"
    by blast
  from u(3) have "ptr2 u = ptr2 t" "hue2 u = hue2 t"
    by (simp_all add: ctl_of_def)
  then have "unat (ptr2 u) < 16" "unat (hue2 u) < 192"
    by (simp_all add: t_def low_nibble_less wrap192_less)
  from NEO_set_ok [OF u(2) this]
  obtain v where v: "NEO_set (ptr2 u) (hue2 u) u = Some v" "buffer_ok v" "ctl_of v = ctl_of u"
    by blast
  from NEO_show_ok [OF v(2)] obtain w where w: "NEO_show v = Some (v\<lparr>wire := w\<rparr>)"
    by blast
  have "animate rtl s = Some (v\<lparr>wire := w\<rparr>)"
    by (simp add: a u(1) v(1) w)
  then show ?thesis
    using v(2,3) u(3) ct by simp
qed

lemma set_random_ok:
  assumes "buffer_ok s"
  shows "\<exists>s'. set_random rtl s = Some s' \<and> buffer_ok s' \<and> ctl_of s' = ctl_of s"
proof -
  have nz: "(192 :: u16) \<noteq> 0" "(16 :: u16) \<noteq> 0"
    by simp_all
  show ?thesis
  proof (cases rtl)
    case True
    from prng_ok [OF nz(1), of s] obtain h r1
      where h: "prng 192 s = Some (h, s\<lparr>rn := r1\<rparr>)" "unat h < 192"
      by auto
    from prng_ok [OF nz(2), of "s\<lparr>rn := r1\<rparr>"] obtain n r2
      where n: "prng 16 (s\<lparr>rn := r1\<rparr>) = Some (n, s\<lparr>rn := r2\<rparr>)" "unat n < 16"
      by auto
    have "unat (ucast n :: u8) < 16" "unat (ucast h :: u8) < 192"
      using h(2) n(2) by (simp_all add: ucast_small)
    from NEO_set_ok [OF _ this, of "s\<lparr>rn := r2\<rparr>"] assms
    obtain s' where "NEO_set (ucast n) (ucast h) (s\<lparr>rn := r2\<rparr>) = Some s'" "buffer_ok s'"
      "ctl_of s' = ctl_of s"
      by auto
    then show ?thesis
      using True h(1) n(1) by (simp add: set_random_def)
  next
    case False
    from prng_ok [OF nz(2), of s] obtain n r1
      where n: "prng 16 s = Some (n, s\<lparr>rn := r1\<rparr>)" "unat n < 16"
      by auto
    from prng_ok [OF nz(1), of "s\<lparr>rn := r1\<rparr>"] obtain h r2
      where h: "prng 192 (s\<lparr>rn := r1\<rparr>) = Some (h, s\<lparr>rn := r2\<rparr>)" "unat h < 192"
      by auto
    have "unat (ucast n :: u8) < 16" "unat (ucast h :: u8) < 192"
      using h(2) n(2) by (simp_all add: ucast_small)
    from NEO_set_ok [OF _ this, of "s\<lparr>rn := r2\<rparr>"] assms
    obtain s' where "NEO_set (ucast n) (ucast h) (s\<lparr>rn := r2\<rparr>) = Some s'" "buffer_ok s'"
      "ctl_of s' = ctl_of s"
      by auto
    then show ?thesis
      using False h(1) n(1) by (simp add: set_random_def)
  qed
qed

lemma animate_2:
  assumes "buffer_ok s" "state s = 2"
  shows "\<exists>s'. animate rtl s = Some s' \<and> buffer_ok s' \<and> ctl_of s' = animate_ctl (ctl_of s)"
proof -
  note f = NEO_fadeOut_ok [OF assms(1)]
  have nz: "(4 :: u16) \<noteq> 0" by simp
  from prng_ok [OF nz, of "NEO_fadeOut s"] obtain i r
    where i: "prng 4 (NEO_fadeOut s) = Some (i, NEO_fadeOut s\<lparr>rn := r\<rparr>)"
    by auto
  let ?t = "NEO_fadeOut s\<lparr>rn := r\<rparr>"
  let ?is = "rev [1..<Suc (unat (ucast i :: u8))]"
  have "\<exists>u. for_each ?is (\<lambda>_. set_random rtl) ?t = Some u
      \<and> (buffer_ok u \<and> ctl_of u = ctl_of s)"
  proof (rule for_each_rule [where P = "\<lambda>k u. buffer_ok u \<and> ctl_of u = ctl_of s"])
    show "buffer_ok ?t \<and> ctl_of ?t = ctl_of s"
      using f by simp
    show "\<exists>t'. set_random rtl t = Some t' \<and> buffer_ok t' \<and> ctl_of t' = ctl_of s"
      if "buffer_ok t \<and> ctl_of t = ctl_of s" for t
      using set_random_ok [of t rtl] that by auto
  qed
  then obtain u where u: "for_each ?is (\<lambda>_. set_random rtl) ?t = Some u" "buffer_ok u"
    "ctl_of u = ctl_of s"
    by blast
  from NEO_show_ok [OF u(2)] obtain w where w: "NEO_show u = Some (u\<lparr>wire := w\<rparr>)"
    by blast
  have "animate rtl s = Some (u\<lparr>wire := w\<rparr>)"
    using assms(2) i u(1) w by (simp add: animate_def Let_def del: upt_Suc)
  moreover have "animate_ctl (ctl_of s) = ctl_of s"
    using assms(2) by (simp add: ctl_of_def animate_ctl_def)
  ultimately show ?thesis
    using u(2,3) by simp
qed

lemma animate_3:
  assumes "buffer_ok s" "state s = 3"
  shows "\<exists>s'. animate rtl s = Some s' \<and> buffer_ok s' \<and> ctl_of s' = animate_ctl (ctl_of s)"
proof -
  let ?body = "\<lambda>i s. do { (h, s) \<leftarrow> prng 192 s; NEO_set (of_nat i) (ucast h) s }"
  have "\<exists>u. for_each [0..<16] ?body s = Some u \<and> (buffer_ok u \<and> ctl_of u = ctl_of s)"
  proof (rule for_each_rule [where P = "\<lambda>k u. buffer_ok u \<and> ctl_of u = ctl_of s"])
    show "buffer_ok s \<and> ctl_of s = ctl_of s"
      using assms(1) by simp
    show "\<exists>t'. ?body ([0..<16] ! k) t = Some t' \<and> buffer_ok t' \<and> ctl_of t' = ctl_of s"
      if k: "k < length [0..<16]" and t: "buffer_ok t \<and> ctl_of t = ctl_of s" for k t
    proof -
      have k16: "k < 16" and nth: "[0..<16] ! k = k"
        using k by simp_all
      have nz: "(192 :: u16) \<noteq> 0" by simp
      from prng_ok [OF nz, of t] obtain h r
        where h: "prng 192 t = Some (h, t\<lparr>rn := r\<rparr>)" "unat h < 192"
        by auto
      have "unat (of_nat k :: u8) < 16" "unat (ucast h :: u8) < 192"
        using k16 h(2) by (simp_all add: of_nat_index ucast_small)
      from NEO_set_ok [OF _ this, of "t\<lparr>rn := r\<rparr>"] t
      obtain t' where "NEO_set (of_nat k) (ucast h) (t\<lparr>rn := r\<rparr>) = Some t'" "buffer_ok t'"
        "ctl_of t' = ctl_of s"
        by auto
      then show ?thesis
        unfolding nth using h(1) by simp
    qed
  qed
  then obtain u where u: "for_each [0..<16] ?body s = Some u" "buffer_ok u" "ctl_of u = ctl_of s"
    by auto
  from NEO_show_ok [of "u\<lparr>counter := 1\<rparr>"] u(2)
  obtain w where w: "NEO_show (u\<lparr>counter := 1\<rparr>) = Some (u\<lparr>counter := 1, wire := w\<rparr>)"
    by auto
  have "animate rtl s = Some (u\<lparr>counter := 1, wire := w\<rparr>)"
    using assms(2) u(1) w by (simp add: animate_def Let_def del: upt_Suc)
  moreover have "ctl_of (u\<lparr>counter := 1, wire := w\<rparr>) = animate_ctl (ctl_of s)"
    using assms(2) u(3) by (simp add: ctl_of_def animate_ctl_def)
  ultimately show ?thesis
    using u(2) by simp
qed

lemma animate_4:
  assumes "buffer_ok s" "state s = 4"
  shows "\<exists>s'. animate rtl s = Some s' \<and> buffer_ok s' \<and> ctl_of s' = animate_ctl (ctl_of s)"
proof -
  let ?body = "\<lambda>i s. do {
      (d, s) \<leftarrow> prng 8 s;
      let s = s\<lparr>NEO_hue := (NEO_hue s)[i := NEO_hue s ! i + ucast d]\<rparr>;
      Some (s\<lparr>NEO_hue := (NEO_hue s)[i := wrap192 (NEO_hue s ! i)]\<rparr>)
    }"
  have "\<exists>u. for_each [0..<16] ?body s = Some u \<and> (buffer_ok u \<and> ctl_of u = ctl_of s)"
  proof (rule for_each_rule [where P = "\<lambda>k u. buffer_ok u \<and> ctl_of u = ctl_of s"])
    show "buffer_ok s \<and> ctl_of s = ctl_of s"
      using assms(1) by simp
    show "\<exists>t'. ?body ([0..<16] ! k) t = Some t' \<and> buffer_ok t' \<and> ctl_of t' = ctl_of s"
      if k: "k < length [0..<16]" and t: "buffer_ok t \<and> ctl_of t = ctl_of s" for k t
    proof -
      have nth: "[0..<16] ! k = k"
        using k by simp
      have nz: "(8 :: u16) \<noteq> 0" by simp
      from prng_ok [OF nz, of t] obtain d r
        where d: "prng 8 t = Some (d, t\<lparr>rn := r\<rparr>)"
        by auto
      let ?v = "wrap192 (NEO_hue t ! k + ucast d)"
      have kl: "k < length (NEO_hue t)"
        using k t by (simp add: buffer_ok_def)
      have b: "?body k t = Some (t\<lparr>rn := r, NEO_hue := (NEO_hue t)[k := ?v]\<rparr>)"
        using kl by (simp add: d Let_def)
      have "set ((NEO_hue t)[k := ?v]) \<subseteq> insert ?v (set (NEO_hue t))"
        by (rule set_update_subset_insert)
      then have "buffer_ok (t\<lparr>rn := r, NEO_hue := (NEO_hue t)[k := ?v]\<rparr>)"
        using t wrap192_less [of "NEO_hue t ! k + ucast d"] by (auto simp: buffer_ok_def)
      then show ?thesis
        unfolding nth b using t by simp
    qed
  qed
  then obtain u where u: "for_each [0..<16] ?body s = Some u" "buffer_ok u" "ctl_of u = ctl_of s"
    by auto
  from NEO_show_ok [OF u(2)] obtain w where w: "NEO_show u = Some (u\<lparr>wire := w\<rparr>)"
    by blast
  have "animate rtl s = Some (u\<lparr>wire := w\<rparr>)"
    using assms(2) u(1) w by (simp add: animate_def del: upt_Suc)
  moreover have "animate_ctl (ctl_of s) = ctl_of s"
    using assms(2) by (simp add: ctl_of_def animate_ctl_def)
  ultimately show ?thesis
    using u(2,3) by simp
qed

lemma rainbow_hue:
  assumes "k < 16"
  shows "unat (12 * of_nat k :: u8) < 192"
proof -
  have "unat (of_nat (12 * k) :: u8) = (12 * k) mod 2 ^ LENGTH(8)"
    by (rule unat_of_nat)
  also have "\<dots> = 12 * k"
    using assms by simp
  finally have "unat (of_nat (12 * k) :: u8) < 192"
    using assms by simp
  then show ?thesis
    by simp
qed

lemma animate_5:
  assumes "buffer_ok s" "state s = 5"
  shows "\<exists>s'. animate rtl s = Some s' \<and> buffer_ok s' \<and> ctl_of s' = animate_ctl (ctl_of s)"
proof -
  let ?body = "\<lambda>i s. do { s \<leftarrow> NEO_set (of_nat i) (hue1 s) s; Some (s\<lparr>hue1 := hue1 s + 12\<rparr>) }"
  let ?P = "\<lambda>k u. buffer_ok u
      \<and> ctl_of u = (state s, counter s, of_nat (12 * k), hue2 s, ptr1 s, ptr2 s)"
  have "\<exists>u. for_each [0..<16] ?body (s\<lparr>hue1 := 0\<rparr>) = Some u \<and> ?P (length [0..<16]) u"
  proof (rule for_each_rule [where P = ?P])
    show "?P 0 (s\<lparr>hue1 := 0\<rparr>)"
      using assms(1) by (simp add: ctl_of_def)
    show "\<exists>t'. ?body ([0..<16] ! k) t = Some t' \<and> ?P (Suc k) t'"
      if k: "k < length [0..<16]" and t: "?P k t" for k t
    proof -
      have k16: "k < 16" and nth: "[0..<16] ! k = k"
        using k by simp_all
      have h: "hue1 t = of_nat (12 * k)"
        using t by (simp add: ctl_of_def)
      have nh: "unat (of_nat k :: u8) < 16" "unat (hue1 t) < 192"
        using k16 by (simp_all add: of_nat_index h rainbow_hue)
      have bt: "buffer_ok t"
        using t by simp
      from NEO_set_ok [OF bt nh]
      obtain t' where t': "NEO_set (of_nat k) (hue1 t) t = Some t'" "buffer_ok t'"
        "ctl_of t' = ctl_of t"
        by blast
      have "hue1 t' + 12 = of_nat (12 * Suc k)"
        using t'(3) h by (simp add: ctl_of_def)
      then have "?P (Suc k) (t'\<lparr>hue1 := hue1 t' + 12\<rparr>)"
        using t'(2,3) t by (simp add: ctl_of_def)
      then show ?thesis
        unfolding nth using t'(1) by simp
    qed
  qed
  then obtain u where u: "for_each [0..<16] ?body (s\<lparr>hue1 := 0\<rparr>) = Some u" "buffer_ok u"
    "ctl_of u = (state s, counter s, 192, hue2 s, ptr1 s, ptr2 s)"
    by auto
  from NEO_show_ok [of "u\<lparr>counter := 1\<rparr>"] u(2)
  obtain w where w: "NEO_show (u\<lparr>counter := 1\<rparr>) = Some (u\<lparr>counter := 1, wire := w\<rparr>)"
    by auto
  have "animate rtl s = Some (u\<lparr>counter := 1, wire := w\<rparr>)"
    using assms(2) u(1) w by (simp add: animate_def Let_def del: upt_Suc)
  moreover have "ctl_of (u\<lparr>counter := 1, wire := w\<rparr>) = animate_ctl (ctl_of s)"
    using assms(2) u(3) by (simp add: ctl_of_def animate_ctl_def)
  ultimately show ?thesis
    using u(2) by simp
qed

lemma animate_6:
  assumes "buffer_ok s" "state s = 6"
  shows "\<exists>s'. animate rtl s = Some s' \<and> buffer_ok s' \<and> ctl_of s' = animate_ctl (ctl_of s)"
proof -
  note c = NEO_cw_ok [OF assms(1)]
  from NEO_show_ok [of "NEO_cw s"] c
  obtain w where w: "NEO_show (NEO_cw s) = Some (NEO_cw s\<lparr>wire := w\<rparr>)"
    by auto
  have "animate rtl s = Some (NEO_cw s\<lparr>wire := w\<rparr>)"
    using assms(2) w by (simp add: animate_def)
  moreover have "animate_ctl (ctl_of s) = ctl_of s"
    using assms(2) by (simp add: ctl_of_def animate_ctl_def)
  ultimately show ?thesis
    using c by simp
qed

lemma animate_7:
  assumes "buffer_ok s" "state s = 7"
  shows "\<exists>s'. animate rtl s = Some s' \<and> buffer_ok s' \<and> ctl_of s' = animate_ctl (ctl_of s)"
proof -
  let ?h = "wrap192 (hue1 s + 3)"
  let ?t = "s\<lparr>hue1 := ?h\<rparr>"
  have "buffer_ok ?t" "unat ?h < 192"
    using assms(1) by (simp_all add: wrap192_less)
  note f = NEO_fill_ok [OF this]
  from NEO_show_ok [of "NEO_fill ?h ?t"] f
  obtain w where w: "NEO_show (NEO_fill ?h ?t) = Some (NEO_fill ?h ?t\<lparr>wire := w\<rparr>)"
    by auto
  have "animate rtl s = Some (NEO_fill ?h ?t\<lparr>wire := w\<rparr>)"
    using assms(2) w by (simp add: animate_def Let_def)
  moreover have "animate_ctl (ctl_of s) = ctl_of ?t"
    using assms(2) by (simp add: ctl_of_def animate_ctl_def)
  ultimately show ?thesis
    using f by simp
qed

lemma animate_ok:
  assumes "buffer_ok s"
  shows "\<exists>s'. animate rtl s = Some s' \<and> buffer_ok s' \<and> ctl_of s' = animate_ctl (ctl_of s)"
proof -
  consider "state s = 0" | "state s = 1" | "state s = 2" | "state s = 3" | "state s = 4"
    | "state s = 5" | "state s = 6" | "state s = 7"
    | "state s \<noteq> 0" "state s \<noteq> 1" "state s \<noteq> 2" "state s \<noteq> 3" "state s \<noteq> 4"
      "state s \<noteq> 5" "state s \<noteq> 6" "state s \<noteq> 7"
    by blast
  then show ?thesis
  proof cases
    case 9
    then have "animate rtl s = Some s" "animate_ctl (ctl_of s) = ctl_of s"
      by (simp_all add: animate_def ctl_of_def animate_ctl_def)
    then show ?thesis using assms by simp
  qed (use assms in \<open>blast intro: animate_0 animate_1 animate_2 animate_3 animate_4 animate_5 animate_6 animate_7\<close>)+
qed

lemma tick_ok:
  assumes "buffer_ok s"
  shows "\<exists>s'. tick rtl s = Some s' \<and> buffer_ok s' \<and> ctl_of s' = ctl_step (ctl_of s)"
proof -
  from animate_ok [OF assms, of rtl]
  obtain t where t: "animate rtl s = Some t" "buffer_ok t" "ctl_of t = animate_ctl (ctl_of s)"
    by blast
  have "\<exists>s'. tick rtl s = Some s' \<and> buffer_ok s' \<and> ctl_of s' = count_ctl (ctl_of t)"
    using t(2) by (simp add: tick_def t(1) Let_def ctl_of_def count_ctl_def)
  then show ?thesis
    by (simp add: ctl_step_def t(3))
qed

lemma run_ok:
  assumes "buffer_ok s"
  shows "\<exists>s'. run rtl n s = Some s' \<and> buffer_ok s' \<and> ctl_of s' = (ctl_step ^^ n) (ctl_of s)"
  using assms
proof (induction n arbitrary: s)
  case 0
  then show ?case by simp
next
  case (Suc n)
  from tick_ok [OF Suc.prems, of rtl]
  obtain t where t: "tick rtl s = Some t" "buffer_ok t" "ctl_of t = ctl_step (ctl_of s)"
    by blast
  from Suc.IH [OF t(2)] show ?case
    by (simp add: t(1,3) funpow_swap1)
qed

subsection \<open>One cycle of the eight states\<close>

lemma funpow_plus: "(f ^^ (m + n)) x = (f ^^ m) ((f ^^ n) x)"
  by (simp add: funpow_add)

lemma funpow_one: "((f :: 'a \<Rightarrow> 'a) ^^ 1) x = f x"
  by simp

lemma ctl_state_0: "ctl_step (0, c, h1, h2, p1, p2) = (1, 76, 0, 96, 0, 8)"
  by (simp add: ctl_step_def animate_ctl_def count_ctl_def)

lemma ctl_state_1: "(ctl_step ^^ 76) (1, 76, 0, 96, 0, 8) = (2, 76, 112, 16, 12, 4)"
  by code_simp

lemma ctl_state_2: "(ctl_step ^^ 76) (2, 76, 112, 16, 12, 4) = (3, 76, 112, 16, 12, 4)"
  by code_simp

lemma ctl_state_3: "ctl_step (3, 76, 112, 16, 12, 4) = (4, 76, 112, 16, 12, 4)"
  by (simp add: ctl_step_def animate_ctl_def count_ctl_def)

lemma ctl_state_4: "(ctl_step ^^ 76) (4, 76, 112, 16, 12, 4) = (5, 76, 112, 16, 12, 4)"
  by code_simp

lemma ctl_state_4_part: "(ctl_step ^^ 71) (4, 76, 112, 16, 12, 4) = (4, 5, 112, 16, 12, 4)"
  by code_simp

lemma ctl_state_5: "ctl_step (5, 76, 112, 16, 12, 4) = (6, 76, 192, 16, 12, 4)"
  by (simp add: ctl_step_def animate_ctl_def count_ctl_def)

lemma ctl_state_6: "(ctl_step ^^ 76) (6, 76, 192, 16, 12, 4) = (7, 76, 192, 16, 12, 4)"
  by code_simp

lemma ctl_state_7: "(ctl_step ^^ 76) (7, 76, 192, 16, 12, 4) = (0, 76, 36, 16, 12, 4)"
  by code_simp

lemma ctl_after_154: "(ctl_step ^^ 154) (0, c, h1, h2, p1, p2) = (4, 76, 112, 16, 12, 4)"
proof -
  have "(154 :: nat) = 1 + (76 + (76 + 1))" by simp
  then have "(ctl_step ^^ 154) (0, c, h1, h2, p1, p2)
      = ctl_step ((ctl_step ^^ 76) ((ctl_step ^^ 76) (ctl_step (0, c, h1, h2, p1, p2))))"
    by (simp only: funpow_plus funpow_one)
  then show ?thesis
    by (simp only: ctl_state_0 ctl_state_1 ctl_state_2 ctl_state_3)
qed

lemma ctl_after_231: "(ctl_step ^^ 231) (0, c, h1, h2, p1, p2) = (6, 76, 192, 16, 12, 4)"
proof -
  have "(231 :: nat) = 1 + (76 + 154)" by simp
  then have "(ctl_step ^^ 231) (0, c, h1, h2, p1, p2)
      = ctl_step ((ctl_step ^^ 76) ((ctl_step ^^ 154) (0, c, h1, h2, p1, p2)))"
    by (simp only: funpow_plus funpow_one)
  then show ?thesis
    by (simp only: ctl_after_154 ctl_state_4 ctl_state_5)
qed

lemma ctl_after_383: "(ctl_step ^^ 383) (0, c, h1, h2, p1, p2) = (0, 76, 36, 16, 12, 4)"
proof -
  have "(383 :: nat) = 76 + (76 + 231)" by simp
  then have "(ctl_step ^^ 383) (0, c, h1, h2, p1, p2)
      = (ctl_step ^^ 76) ((ctl_step ^^ 76) ((ctl_step ^^ 231) (0, c, h1, h2, p1, p2)))"
    by (simp only: funpow_plus)
  then show ?thesis
    by (simp only: ctl_after_231 ctl_state_6 ctl_state_7)
qed

lemma ctl_after_608: "(ctl_step ^^ 608) (0, c, h1, h2, p1, p2) = (4, 5, 112, 16, 12, 4)"
proof -
  have "(608 :: nat) = 71 + (154 + 383)" by simp
  then have "(ctl_step ^^ 608) (0, c, h1, h2, p1, p2)
      = (ctl_step ^^ 71) ((ctl_step ^^ 154) ((ctl_step ^^ 383) (0, c, h1, h2, p1, p2)))"
    by (simp only: funpow_plus)
  then show ?thesis
    by (simp only: ctl_after_383 ctl_after_154 ctl_state_4_part)
qed

lemma buffer_ok_power_on: "buffer_ok (power_on c h1 h2 p1 p2)"
  by (simp add: buffer_ok_def power_on_def)

lemma ctl_of_power_on: "ctl_of (power_on c h1 h2 p1 p2) = (0, c, h1, h2, p1, p2)"
  by (simp add: ctl_of_def power_on_def)

lemma ctl_of_state_0:
  "state s = 0 \<Longrightarrow> ctl_of s = (0, counter s, hue1 s, hue2 s, ptr1 s, ptr2 s)"
  by (simp add: ctl_of_def)

text \<open>
  Claim C2 as stated fails: from state 0 with the counter at 76, after 8 * 76 ticks the
  machine is in state 4, not in state 0.
\<close>

theorem C2_counterexample:
  "map_option state (run True (8 * 76) (power_on 76 0 0 0 0)) = Some 4
   \<and> map_option state (run True (8 * 76) (power_on 76 0 0 0 0)) \<noteq> Some 0"
proof -
  from run_ok [OF buffer_ok_power_on, of True "8 * 76" 76 0 0 0 0]
  obtain s' where s': "run True (8 * 76) (power_on 76 0 0 0 0) = Some s'"
    "ctl_of s' = (ctl_step ^^ (8 * 76)) (ctl_of (power_on 76 0 0 0 0))"
    by blast
  have "(8 * 76 :: nat) = 608" by simp
  then have "ctl_of s' = (4, 5, 112, 16, 12, 4)"
    using s'(2) by (simp only: ctl_of_power_on ctl_after_608)
  then have "state s' = 4"
    by (simp add: ctl_of_def)
  then show ?thesis
    unfolding s'(1) by simp
qed

lemma ctl_after_cycles:
  "(ctl_step ^^ (383 * Suc k)) (0, c, h1, h2, p1, p2) = (0, 76, 36, 16, 12, 4)"
proof (induction k)
  case 0
  have "383 * Suc 0 = (383 :: nat)" by simp
  then show ?case by (simp only: ctl_after_383)
next
  case (Suc k)
  have "383 * Suc (Suc k) = 383 + 383 * Suc k" by simp
  then have "(ctl_step ^^ (383 * Suc (Suc k))) (0, c, h1, h2, p1, p2)
      = (ctl_step ^^ 383) ((ctl_step ^^ (383 * Suc k)) (0, c, h1, h2, p1, p2))"
    by (simp only: funpow_plus)
  then show ?case
    by (simp only: Suc ctl_after_383)
qed

text \<open>
  Claim C2 (amended): from any machine in state 0 with well-formed buffers, and for
  either order of evaluating the arguments of \<open>NEO_set\<close>, 383 ticks lead back to
  state 0 with counter 76, hue1 36, hue2 16, ptr1 12 and ptr2 4, and 383 further ticks
  lead to state 0 with the same six values; the same holds after every whole number of
  cycles of 383 ticks, the buffers staying well-formed; and after 8 * 76 ticks the
  machine is in state 4.
\<close>

theorem C2_cycle:
  assumes "buffer_ok s" "state s = 0"
  shows "(\<exists>s' s''. run rtl 383 s = Some s' \<and> ctl_of s' = (0, 76, 36, 16, 12, 4)
            \<and> run rtl 383 s' = Some s'' \<and> ctl_of s'' = ctl_of s')
     \<and> (\<forall>k. \<exists>s'. run rtl (383 * Suc k) s = Some s' \<and> buffer_ok s'
            \<and> ctl_of s' = (0, 76, 36, 16, 12, 4))
     \<and> (\<exists>s'. run rtl (8 * 76) s = Some s' \<and> buffer_ok s' \<and> state s' = 4)"
proof (intro conjI allI)
  from run_ok [OF assms(1), of rtl 383]
  obtain s' where s': "run rtl 383 s = Some s'" "buffer_ok s'"
    "ctl_of s' = (ctl_step ^^ 383) (ctl_of s)"
    by blast
  have c': "ctl_of s' = (0, 76, 36, 16, 12, 4)"
    using s'(3) by (simp only: ctl_of_state_0 [OF assms(2)] ctl_after_383)
  from run_ok [OF s'(2), of rtl 383]
  obtain s'' where s'': "run rtl 383 s' = Some s''"
    "ctl_of s'' = (ctl_step ^^ 383) (ctl_of s')"
    by blast
  have "ctl_of s'' = (0, 76, 36, 16, 12, 4)"
    using s''(2) by (simp only: c' ctl_after_383)
  then show "\<exists>s' s''. run rtl 383 s = Some s' \<and> ctl_of s' = (0, 76, 36, 16, 12, 4)
      \<and> run rtl 383 s' = Some s'' \<and> ctl_of s'' = ctl_of s'"
    using s'(1) s''(1) c' by simp
next
  fix k
  from run_ok [OF assms(1), of rtl "383 * Suc k"]
  obtain s' where s': "run rtl (383 * Suc k) s = Some s'" "buffer_ok s'"
    "ctl_of s' = (ctl_step ^^ (383 * Suc k)) (ctl_of s)"
    by blast
  have "ctl_of s' = (0, 76, 36, 16, 12, 4)"
    using s'(3) by (simp only: ctl_of_state_0 [OF assms(2)] ctl_after_cycles)
  then show "\<exists>s'. run rtl (383 * Suc k) s = Some s' \<and> buffer_ok s'
      \<and> ctl_of s' = (0, 76, 36, 16, 12, 4)"
    using s'(1,2) by blast
next
  from run_ok [OF assms(1), of rtl "8 * 76"]
  obtain s' where s': "run rtl (8 * 76) s = Some s'" "buffer_ok s'"
    "ctl_of s' = (ctl_step ^^ (8 * 76)) (ctl_of s)"
    by blast
  have "(8 * 76 :: nat) = 608" by simp
  then have "ctl_of s' = (4, 5, 112, 16, 12, 4)"
    using s'(3) by (simp only: ctl_of_state_0 [OF assms(2)] ctl_after_608)
  then have "state s' = 4"
    by (simp add: ctl_of_def)
  then show "\<exists>s'. run rtl (8 * 76) s = Some s' \<and> buffer_ok s' \<and> state s' = 4"
    using s'(1,2) by blast
qed

text \<open>
  Claim C2, witness: the machine at power-on with the counter at 76; one, two and three
  cycles, and 8 * 76 ticks.
\<close>

theorem C2_cycle_witness:
  "state (power_on 76 0 0 0 0) = 0
   \<and> map_option ctl_of (run True 383 (power_on 76 0 0 0 0)) = Some (0, 76, 36, 16, 12, 4)
   \<and> map_option ctl_of (Option.bind (run True 383 (power_on 76 0 0 0 0)) (run True 383))
       = Some (0, 76, 36, 16, 12, 4)
   \<and> map_option ctl_of (run False (383 * Suc 2) (power_on 76 0 0 0 0))
       = Some (0, 76, 36, 16, 12, 4)
   \<and> map_option state (run False (8 * 76) (power_on 76 0 0 0 0)) = Some 4"
proof -
  have st: "state (power_on 76 0 0 0 0) = 0"
    by (simp add: power_on_def)
  note t = C2_cycle [OF buffer_ok_power_on st]
  from t [of True]
  obtain s' s'' where c: "run True 383 (power_on 76 0 0 0 0) = Some s'"
    "ctl_of s' = (0, 76, 36, 16, 12, 4)" "run True 383 s' = Some s''" "ctl_of s'' = ctl_of s'"
    by blast
  from t [of False]
  obtain u where u: "run False (383 * Suc 2) (power_on 76 0 0 0 0) = Some u"
    "ctl_of u = (0, 76, 36, 16, 12, 4)"
    by blast
  from t [of False]
  obtain v where v: "run False (8 * 76) (power_on 76 0 0 0 0) = Some v" "state v = 4"
    by blast
  show ?thesis
    unfolding c(1) u(1) v(1) using st c(2,3,4) u(2) v(2) by simp
qed

subsection \<open>The hue parameters stay in range\<close>

lemma ctl_step_hues:
  assumes "unat (fst (snd (snd c))) \<le> 192" "unat (fst (snd (snd (snd c)))) < 192"
  shows "unat (fst (snd (snd (ctl_step c)))) \<le> 192
    \<and> unat (fst (snd (snd (snd (ctl_step c))))) < 192"
proof -
  obtain st cn h1 h2 p1 p2 where c: "c = (st, cn, h1, h2, p1, p2)"
    by (cases c) auto
  have "unat (wrap192 x) \<le> 192" for x
    using wrap192_less [of x] by simp
  then show ?thesis
    using assms by (simp add: c ctl_step_def animate_ctl_def count_ctl_def wrap192_less)
qed

lemma ctl_funpow_hues:
  assumes "unat (fst (snd (snd c))) \<le> 192" "unat (fst (snd (snd (snd c)))) < 192"
  shows "unat (fst (snd (snd ((ctl_step ^^ n) c)))) \<le> 192
    \<and> unat (fst (snd (snd (snd ((ctl_step ^^ n) c))))) < 192"
proof (induction n)
  case 0
  show ?case using assms by simp
next
  case (Suc n)
  then show ?case
    using ctl_step_hues [of "(ctl_step ^^ n) c"] by simp
qed

text \<open>
  Claim C7 as stated fails: 231 ticks after power-on (the tick of state 5) hue1 is 192,
  outside [0,192).
\<close>

theorem C7_counterexample:
  "map_option (\<lambda>s. unat (hue1 s)) (run True 231 (power_on 0 0 0 0 0)) = Some 192"
proof -
  from run_ok [OF buffer_ok_power_on, of True 231 0 0 0 0 0]
  obtain s' where s': "run True 231 (power_on 0 0 0 0 0) = Some s'"
    "ctl_of s' = (ctl_step ^^ 231) (ctl_of (power_on 0 0 0 0 0))"
    by blast
  have "ctl_of s' = (6, 76, 192, 16, 12, 4)"
    using s'(2) by (simp only: ctl_of_power_on ctl_after_231)
  then have "hue1 s' = 192"
    by (simp add: ctl_of_def)
  then show ?thesis
    unfolding s'(1) by simp
qed

text \<open>
  Claim C7 (amended): after every tick from power-on, whatever the uninitialised locals
  held, the tick is defined, every hue in the buffer and hue2 are below 192, and hue1 is
  at most 192.
\<close>

theorem C7_hue_domain:
  assumes "0 < n"
  shows "\<exists>s. run rtl n (power_on c h1 h2 p1 p2) = Some s
     \<and> (\<forall>h\<in>set (NEO_hue s). unat h < 192) \<and> unat (hue2 s) < 192 \<and> unat (hue1 s) \<le> 192"
proof -
  from run_ok [OF buffer_ok_power_on, of rtl n c h1 h2 p1 p2]
  obtain s where s: "run rtl n (power_on c h1 h2 p1 p2) = Some s" "buffer_ok s"
    "ctl_of s = (ctl_step ^^ n) (ctl_of (power_on c h1 h2 p1 p2))"
    by blast
  obtain m where n: "n = Suc m"
    using assms by (cases n) auto
  have "(ctl_step ^^ n) (0, c, h1, h2, p1, p2) = (ctl_step ^^ m) (1, 76, 0, 96, 0, 8)"
    unfolding n by (simp only: funpow_Suc_right comp_apply ctl_state_0)
  then have e: "ctl_of s = (ctl_step ^^ m) (1, 76, 0, 96, 0, 8)"
    using s(3) by (simp only: ctl_of_power_on)
  have "hue1 s = fst (snd (snd (ctl_of s)))" "hue2 s = fst (snd (snd (snd (ctl_of s))))"
    by (simp_all add: ctl_of_def)
  then have "hue1 s = fst (snd (snd ((ctl_step ^^ m) (1, 76, 0, 96, 0, 8))))"
    "hue2 s = fst (snd (snd (snd ((ctl_step ^^ m) (1, 76, 0, 96, 0, 8)))))"
    by (simp_all only: e)
  moreover have "unat (fst (snd (snd ((ctl_step ^^ m) (1, 76, 0, 96, 0, 8))))) \<le> 192
    \<and> unat (fst (snd (snd (snd ((ctl_step ^^ m) (1, 76, 0, 96, 0, 8)))))) < 192"
    by (rule ctl_funpow_hues) simp_all
  ultimately have "unat (hue1 s) \<le> 192 \<and> unat (hue2 s) < 192"
    by (simp only:)
  then show ?thesis
    using s(1,2) by (simp add: buffer_ok_def)
qed

text \<open>
  Claim C7, witness: 231 ticks after power-on.
\<close>

theorem C7_hue_domain_witness:
  "(0 :: nat) < 231
   \<and> (case run True 231 (power_on 0 0 0 0 0) of
         None \<Rightarrow> False
       | Some s \<Rightarrow> list_all (\<lambda>h. unat h < 192) (NEO_hue s) \<and> unat (hue2 s) < 192
           \<and> unat (hue1 s) \<le> 192)"
proof -
  have n: "(0 :: nat) < 231" by simp
  from C7_hue_domain [OF n, of True 0 0 0 0 0]
  obtain s where "run True 231 (power_on 0 0 0 0 0) = Some s"
    "\<forall>h\<in>set (NEO_hue s). unat h < 192" "unat (hue2 s) < 192" "unat (hue1 s) \<le> 192"
    by blast
  then show ?thesis
    by (simp add: list_all_iff)
qed

end
